theory Spec2Isabelle
  imports Complex_Main
begin

section \<open>JavaScript numbers\<close>

text \<open>
  The values of the Number type that the recurrence code can meet: a finite number, the
  two infinities and NaN.  Finite numbers are rationals and arithmetic on them is exact,
  so rounding of doubles and the sign of zero are outside this model.  On whole numbers
  the model and the doubles of the language agree as long as the values stay below
  \<open>2^53\<close> in absolute value, as every time value and day number of a valid Date does; on
  other numbers they can differ by the rounding of each operation.
\<close>

datatype jsnum = Fin rat | NaN | PInf | NInf

fun isFinite :: "jsnum \<Rightarrow> bool" where
  "isFinite (Fin _) = True"
| "isFinite _ = False"

fun jneg :: "jsnum \<Rightarrow> jsnum" where
  "jneg (Fin a) = Fin (- a)"
| "jneg NaN = NaN"
| "jneg PInf = NInf"
| "jneg NInf = PInf"

fun jadd :: "jsnum \<Rightarrow> jsnum \<Rightarrow> jsnum" where
  "jadd (Fin a) (Fin b) = Fin (a + b)"
| "jadd NaN _ = NaN"
| "jadd _ NaN = NaN"
| "jadd PInf NInf = NaN"
| "jadd NInf PInf = NaN"
| "jadd PInf _ = PInf"
| "jadd _ PInf = PInf"
| "jadd NInf _ = NInf"
| "jadd _ NInf = NInf"

definition jsub :: "jsnum \<Rightarrow> jsnum \<Rightarrow> jsnum" where
  "jsub a b = jadd a (jneg b)"

text \<open>The sign of a number that is not NaN: \<open>-1\<close>, \<open>0\<close> or \<open>1\<close>.\<close>

fun jsign :: "jsnum \<Rightarrow> int" where
  "jsign (Fin a) = (if a < 0 then - 1 else if a = 0 then 0 else 1)"
| "jsign PInf = 1"
| "jsign NInf = - 1"
| "jsign NaN = 0"

definition signedInf :: "int \<Rightarrow> jsnum" where
  "signedInf s = (if s = 0 then NaN else if 0 < s then PInf else NInf)"

fun jmul :: "jsnum \<Rightarrow> jsnum \<Rightarrow> jsnum" where
  "jmul (Fin a) (Fin b) = Fin (a * b)"
| "jmul NaN _ = NaN"
| "jmul _ NaN = NaN"
| "jmul a b = signedInf (jsign a * jsign b)"

text \<open>Division; a zero divisor is the positive zero.\<close>

fun jdiv :: "jsnum \<Rightarrow> jsnum \<Rightarrow> jsnum" where
  "jdiv (Fin a) (Fin b) = (if b = 0 then signedInf (jsign (Fin a)) else Fin (a / b))"
| "jdiv NaN _ = NaN"
| "jdiv _ NaN = NaN"
| "jdiv (Fin a) _ = Fin 0"
| "jdiv a (Fin b) = signedInf (jsign a * (if b < 0 then - 1 else 1))"
| "jdiv _ _ = NaN"

text \<open>\<open>ToIntegerOrInfinity\<close> on a finite number: truncation towards zero.\<close>

definition toInteger :: "rat \<Rightarrow> int" where
  "toInteger r = (if 0 \<le> r then \<lfloor>r\<rfloor> else \<lceil>r\<rceil>)"

text \<open>The remainder operator \<open>%\<close>: the result has the sign of the dividend.\<close>

fun jmod :: "jsnum \<Rightarrow> jsnum \<Rightarrow> jsnum" where
  "jmod (Fin a) (Fin b) = (if b = 0 then NaN else Fin (a - b * of_int (toInteger (a / b))))"
| "jmod (Fin a) PInf = Fin a"
| "jmod (Fin a) NInf = Fin a"
| "jmod _ _ = NaN"

fun jfloor :: "jsnum \<Rightarrow> jsnum" where
  "jfloor (Fin a) = Fin (of_int \<lfloor>a\<rfloor>)"
| "jfloor x = x"

fun jlt :: "jsnum \<Rightarrow> jsnum \<Rightarrow> bool" where
  "jlt (Fin a) (Fin b) = (a < b)"
| "jlt NaN _ = False"
| "jlt _ NaN = False"
| "jlt _ NInf = False"
| "jlt PInf _ = False"
| "jlt _ _ = True"

definition jgt :: "jsnum \<Rightarrow> jsnum \<Rightarrow> bool" where
  "jgt a b = jlt b a"

fun jeq :: "jsnum \<Rightarrow> jsnum \<Rightarrow> bool" where
  "jeq NaN _ = False"
| "jeq _ NaN = False"
| "jeq a b = (a = b)"

definition jle :: "jsnum \<Rightarrow> jsnum \<Rightarrow> bool" where
  "jle a b = (jlt a b \<or> jeq a b)"

text \<open>An integer as a number.\<close>

definition num :: "int \<Rightarrow> jsnum" where
  "num i = Fin (of_int i)"

section \<open>Time values and the calendar of ECMAScript\<close>

text \<open>
  A time value is a number of milliseconds since 1970-01-01T00:00:00Z.  The abstract
  operations below are those of the language specification (section ``Date Objects'').
\<close>

definition msPerDay :: int where "msPerDay = 86400000"
definition msPerHour :: int where "msPerHour = 3600000"
definition msPerMinute :: int where "msPerMinute = 60000"
definition msPerSecond :: int where "msPerSecond = 1000"

definition Day :: "int \<Rightarrow> int" where
  "Day t = t div msPerDay"

definition TimeWithinDay :: "int \<Rightarrow> int" where
  "TimeWithinDay t = t mod msPerDay"

definition DaysInYear :: "int \<Rightarrow> int" where
  "DaysInYear y =
     (if y mod 4 \<noteq> 0 then 365 else if y mod 100 \<noteq> 0 then 366
      else if y mod 400 \<noteq> 0 then 365 else 366)"

definition DayFromYear :: "int \<Rightarrow> int" where
  "DayFromYear y =
     365 * (y - 1970) + (y - 1969) div 4 - (y - 1901) div 100 + (y - 1601) div 400"

text \<open>
  The year of a day number: the largest \<open>y\<close> with \<open>DayFromYear y \<le> d\<close>.  It is computed
  from the mean length of a year (146097 days in 400 years), which is off by at most one.
\<close>

definition YearFromDay :: "int \<Rightarrow> int" where
  "YearFromDay d =
     (let y = 1970 + (400 * d) div 146097
      in if d < DayFromYear y then y - 1
         else if DayFromYear (y + 1) \<le> d then y + 1
         else y)"

definition YearFromTime :: "int \<Rightarrow> int" where
  "YearFromTime t = YearFromDay (Day t)"

definition leapYear :: "int \<Rightarrow> int" where
  "leapYear y = (if DaysInYear y = 366 then 1 else 0)"

definition InLeapYear :: "int \<Rightarrow> int" where
  "InLeapYear t = leapYear (YearFromTime t)"

definition DayWithinYear :: "int \<Rightarrow> int" where
  "DayWithinYear t = Day t - DayFromYear (YearFromTime t)"

text \<open>The number of days of a year that precede its month \<open>m\<close> (0 is January).\<close>

definition monthStart :: "int \<Rightarrow> int \<Rightarrow> int" where
  "monthStart leap m =
     (if m = 0 then 0 else if m = 1 then 31 else if m = 2 then 59 + leap
      else if m = 3 then 90 + leap else if m = 4 then 120 + leap
      else if m = 5 then 151 + leap else if m = 6 then 181 + leap
      else if m = 7 then 212 + leap else if m = 8 then 243 + leap
      else if m = 9 then 273 + leap else if m = 10 then 304 + leap
      else 334 + leap)"

definition MonthFromTime :: "int \<Rightarrow> int" where
  "MonthFromTime t =
     (let d = DayWithinYear t; l = InLeapYear t
      in if d < 31 then 0 else if d < 59 + l then 1 else if d < 90 + l then 2
         else if d < 120 + l then 3 else if d < 151 + l then 4
         else if d < 181 + l then 5 else if d < 212 + l then 6
         else if d < 243 + l then 7 else if d < 273 + l then 8
         else if d < 304 + l then 9 else if d < 334 + l then 10 else 11)"

definition DateFromTime :: "int \<Rightarrow> int" where
  "DateFromTime t = DayWithinYear t - monthStart (InLeapYear t) (MonthFromTime t) + 1"

definition WeekDay :: "int \<Rightarrow> int" where
  "WeekDay t = (Day t + 4) mod 7"

definition HourFromTime :: "int \<Rightarrow> int" where
  "HourFromTime t = (t div msPerHour) mod 24"

definition MinFromTime :: "int \<Rightarrow> int" where
  "MinFromTime t = (t div msPerMinute) mod 60"

definition SecFromTime :: "int \<Rightarrow> int" where
  "SecFromTime t = (t div msPerSecond) mod 60"

definition msFromTime :: "int \<Rightarrow> int" where
  "msFromTime t = t mod msPerSecond"

definition MakeTime :: "jsnum \<Rightarrow> jsnum \<Rightarrow> jsnum \<Rightarrow> jsnum \<Rightarrow> jsnum" where
  "MakeTime hour mi sec ms =
     (case (hour, mi, sec, ms) of
        (Fin h, Fin m, Fin s, Fin milli) \<Rightarrow>
          num (toInteger h * msPerHour + toInteger m * msPerMinute
               + toInteger s * msPerSecond + toInteger milli)
      | _ \<Rightarrow> NaN)"

text \<open>
  \<open>MakeDay\<close>: the day number of the first day of month \<open>month\<close> of year \<open>year\<close> (months
  beyond a year carry into the year), plus \<open>date - 1\<close>.
\<close>

definition MakeDay :: "jsnum \<Rightarrow> jsnum \<Rightarrow> jsnum \<Rightarrow> jsnum" where
  "MakeDay year month date =
     (case (year, month, date) of
        (Fin y, Fin m, Fin dt) \<Rightarrow>
          (let ym = toInteger y + toInteger m div 12;
               mn = toInteger m mod 12
           in num (DayFromYear ym + monthStart (leapYear ym) mn + toInteger dt - 1))
      | _ \<Rightarrow> NaN)"

definition MakeDate :: "jsnum \<Rightarrow> jsnum \<Rightarrow> jsnum" where
  "MakeDate day time =
     (if isFinite day \<and> isFinite time then jadd (jmul day (num msPerDay)) time else NaN)"

definition maxTime :: int where "maxTime = 8640000000000000"

definition TimeClip :: "jsnum \<Rightarrow> jsnum" where
  "TimeClip time =
     (case time of
        Fin r \<Rightarrow> (if of_int maxTime < \<bar>r\<bar> then NaN else num (toInteger r))
      | _ \<Rightarrow> NaN)"

section \<open>Local time\<close>

text \<open>
  The methods of Date that the module uses read and write local time.  The host's time
  zone enters through its local time zone adjustment \<open>LocalTZA(t, isUTC)\<close>, a number of
  milliseconds: for \<open>isUTC = true\<close> it is the offset of local time from UTC in force at the
  time value \<open>t\<close>; for \<open>isUTC = false\<close> it is the offset with which the local time value
  \<open>t\<close> is read.  A local time that the clocks skip or repeat at a transition is read with
  the offset in force before the transition.
\<close>

type_synonym zone = "int \<Rightarrow> bool \<Rightarrow> int"

definition LocalTime :: "zone \<Rightarrow> int \<Rightarrow> int" where
  "LocalTime z t = t + z t True"

definition UTC :: "zone \<Rightarrow> jsnum \<Rightarrow> jsnum" where
  "UTC z v = (case v of Fin r \<Rightarrow> Fin (r - of_int (z \<lfloor>r\<rfloor> False)) | _ \<Rightarrow> NaN)"

text \<open>The zone of a host that keeps UTC.\<close>

definition utc :: zone where
  "utc = (\<lambda>t isUTC. 0)"

section \<open>Date objects\<close>

text \<open>
  A Date object holds a time value within the range of \<open>TimeClip\<close>, or NaN, in which case
  it is an Invalid Date.  The code never shares a Date it mutates (each helper copies
  its argument first), so a Date is modelled by its value.
\<close>

datatype date = Date int | InvalidDate

text \<open>The Date whose time value is the given number, after \<open>TimeClip\<close>.\<close>

definition dateOfTime :: "jsnum \<Rightarrow> date" where
  "dateOfTime v = (case TimeClip v of Fin r \<Rightarrow> Date \<lfloor>r\<rfloor> | _ \<Rightarrow> InvalidDate)"

fun getTime :: "date \<Rightarrow> jsnum" where
  "getTime (Date t) = num t"
| "getTime InvalidDate = NaN"

fun getFullYear :: "zone \<Rightarrow> date \<Rightarrow> jsnum" where
  "getFullYear z (Date t) = num (YearFromTime (LocalTime z t))"
| "getFullYear z InvalidDate = NaN"

fun getMonth :: "zone \<Rightarrow> date \<Rightarrow> jsnum" where
  "getMonth z (Date t) = num (MonthFromTime (LocalTime z t))"
| "getMonth z InvalidDate = NaN"

fun getDate :: "zone \<Rightarrow> date \<Rightarrow> jsnum" where
  "getDate z (Date t) = num (DateFromTime (LocalTime z t))"
| "getDate z InvalidDate = NaN"

fun getDay :: "zone \<Rightarrow> date \<Rightarrow> jsnum" where
  "getDay z (Date t) = num (WeekDay (LocalTime z t))"
| "getDay z InvalidDate = NaN"

fun getHours :: "zone \<Rightarrow> date \<Rightarrow> jsnum" where
  "getHours z (Date t) = num (HourFromTime (LocalTime z t))"
| "getHours z InvalidDate = NaN"

fun getMinutes :: "zone \<Rightarrow> date \<Rightarrow> jsnum" where
  "getMinutes z (Date t) = num (MinFromTime (LocalTime z t))"
| "getMinutes z InvalidDate = NaN"

fun getSeconds :: "zone \<Rightarrow> date \<Rightarrow> jsnum" where
  "getSeconds z (Date t) = num (SecFromTime (LocalTime z t))"
| "getSeconds z InvalidDate = NaN"

fun getMilliseconds :: "zone \<Rightarrow> date \<Rightarrow> jsnum" where
  "getMilliseconds z (Date t) = num (msFromTime (LocalTime z t))"
| "getMilliseconds z InvalidDate = NaN"

text \<open>
  \<open>x.setHours(h, m, s, ms)\<close>, \<open>x.setDate(d)\<close> and \<open>x.setMonth(m)\<close>, returning the updated
  Date: the new value is composed in local time and converted to UTC.
\<close>

fun setHours :: "zone \<Rightarrow> date \<Rightarrow> jsnum \<Rightarrow> jsnum \<Rightarrow> jsnum \<Rightarrow> jsnum \<Rightarrow> date" where
  "setHours z (Date t) h m s ms =
     dateOfTime (UTC z (MakeDate (num (Day (LocalTime z t))) (MakeTime h m s ms)))"
| "setHours z InvalidDate h m s ms = InvalidDate"

fun setDate :: "zone \<Rightarrow> date \<Rightarrow> jsnum \<Rightarrow> date" where
  "setDate z (Date t) dt =
     dateOfTime (UTC z (MakeDate (MakeDay (num (YearFromTime (LocalTime z t)))
                                          (num (MonthFromTime (LocalTime z t))) dt)
                                 (num (TimeWithinDay (LocalTime z t)))))"
| "setDate z InvalidDate dt = InvalidDate"

fun setMonth :: "zone \<Rightarrow> date \<Rightarrow> jsnum \<Rightarrow> date" where
  "setMonth z (Date t) m =
     dateOfTime (UTC z (MakeDate (MakeDay (num (YearFromTime (LocalTime z t))) m
                                          (num (DateFromTime (LocalTime z t))))
                                 (num (TimeWithinDay (LocalTime z t)))))"
| "setMonth z InvalidDate m = InvalidDate"

text \<open>
  \<open>new Date(year, month, day)\<close>, midnight of that day in local time: a year from 0 to 99
  stands for 1900 plus that year.
\<close>

definition newDate :: "zone \<Rightarrow> jsnum \<Rightarrow> jsnum \<Rightarrow> jsnum \<Rightarrow> date" where
  "newDate z year month day =
     (let yr = (case year of
                  Fin y \<Rightarrow> (if 0 \<le> toInteger y \<and> toInteger y \<le> 99
                            then num (1900 + toInteger y) else Fin y)
                | other \<Rightarrow> other)
      in dateOfTime (UTC z (MakeDate (MakeDay yr month day)
                                     (MakeTime (num 0) (num 0) (num 0) (num 0)))))"

section \<open>Calendar arithmetic of the events module\<close>

definition startOfDay :: "zone \<Rightarrow> date \<Rightarrow> date" where
  "startOfDay z d = setHours z d (num 0) (num 0) (num 0) (num 0)"

definition addDays :: "zone \<Rightarrow> date \<Rightarrow> jsnum \<Rightarrow> date" where
  "addDays z d days = setDate z d (jadd (getDate z d) days)"

definition addWeeks :: "zone \<Rightarrow> date \<Rightarrow> jsnum \<Rightarrow> date" where
  "addWeeks z d weeks = addDays z d (jmul weeks (num 7))"

definition addMonths :: "zone \<Rightarrow> date \<Rightarrow> jsnum \<Rightarrow> date" where
  "addMonths z d months =
     (let day = getDate z d;
          x = setMonth z d (jadd (getMonth z d) months)
      in if \<not> jeq (getDate z x) day then setDate z x (num 0) else x)"

definition setTimeFromAnchor :: "zone \<Rightarrow> date \<Rightarrow> date \<Rightarrow> date" where
  "setTimeFromAnchor z dateOnly anchor =
     setHours z dateOnly (getHours z anchor) (getMinutes z anchor) (getSeconds z anchor)
       (getMilliseconds z anchor)"

definition weeksBetween :: "zone \<Rightarrow> date \<Rightarrow> date \<Rightarrow> jsnum" where
  "weeksBetween z a b =
     (let ms = jsub (getTime (startOfDay z b)) (getTime (startOfDay z a))
      in jfloor (jdiv ms (num (7 * 24 * 60 * 60 * 1000))))"

section \<open>Event records\<close>

text \<open>
  The values that the fields of an event record hold after the module has read the JSON
  file: absent fields read as \<open>undefined\<close>; an object lists each of its own properties
  once.  Objects and arrays are those that \<open>JSON.parse\<close> builds: none of their properties
  is a function, and they inherit from \<open>Object.prototype\<close> and \<open>Array.prototype\<close>.
\<close>

datatype jsval =
    JUndefined
  | JNull
  | JBool bool
  | JNum jsnum
  | JStr string
  | JArr "jsval list"
  | JObj "(string \<times> jsval) list"

text \<open>
  Three conversions are parameters of the model: the reading of a string as a number
  (\<open>Number(s)\<close>), the printing of a number (\<open>String(n)\<close>) and the reading of a string as a
  date-time (\<open>Date.parse(s)\<close>, NaN when unparseable).
\<close>

record host =
  StringToNumber :: "string \<Rightarrow> jsnum"
  NumberToString :: "jsnum \<Rightarrow> string"
  DateParse :: "string \<Rightarrow> jsnum"

datatype jserror = TypeError

fun ToBoolean :: "jsval \<Rightarrow> bool" where
  "ToBoolean JUndefined = False"
| "ToBoolean JNull = False"
| "ToBoolean (JBool b) = b"
| "ToBoolean (JNum n) = (n \<noteq> Fin 0 \<and> n \<noteq> NaN)"
| "ToBoolean (JStr s) = (s \<noteq> [])"
| "ToBoolean (JArr xs) = True"
| "ToBoolean (JObj ps) = True"

text \<open>
  The conversion of a value to a string.  An object is converted by its \<open>toString\<close> method
  and then its \<open>valueOf\<close> method.  An object of the JSON file inherits both, and the
  inherited \<open>toString\<close> gives \<open>"[object Object]"\<close>; an own property named \<open>toString\<close> hides
  the inherited method and is not a function, the inherited \<open>valueOf\<close> returns the object
  itself, and the conversion then throws a TypeError.  An array is converted by \<open>join\<close>:
  its elements are converted in turn, \<open>undefined\<close> and \<open>null\<close> to the empty string, and
  separated by commas.
\<close>

fun joinWith :: "string \<Rightarrow> string list \<Rightarrow> string" where
  "joinWith sep [] = []"
| "joinWith sep [x] = x"
| "joinWith sep (x # y # ys) = x @ sep @ joinWith sep (y # ys)"

fun firstError :: "('e + 'a) list \<Rightarrow> 'e + 'a list" where
  "firstError [] = Inr []"
| "firstError (Inl e # xs) = Inl e"
| "firstError (Inr v # xs) = (case firstError xs of Inl e \<Rightarrow> Inl e | Inr vs \<Rightarrow> Inr (v # vs))"

definition hasOwnProperty :: "(string \<times> jsval) list \<Rightarrow> string \<Rightarrow> bool" where
  "hasOwnProperty ps k = (map_of ps k \<noteq> None)"

fun ToString :: "host \<Rightarrow> jsval \<Rightarrow> jserror + string" where
  "ToString h JUndefined = Inr ''undefined''"
| "ToString h JNull = Inr ''null''"
| "ToString h (JBool b) = Inr (if b then ''true'' else ''false'')"
| "ToString h (JNum n) = Inr (NumberToString h n)"
| "ToString h (JStr s) = Inr s"
| "ToString h (JArr xs) =
     (case firstError (map (\<lambda>x. if x = JUndefined \<or> x = JNull then Inr [] else ToString h x) xs)
      of Inl e \<Rightarrow> Inl e | Inr ss \<Rightarrow> Inr (joinWith '','' ss))"
| "ToString h (JObj ps) =
     (if hasOwnProperty ps ''toString'' then Inl TypeError else Inr ''[object Object]'')"

text \<open>
  \<open>Number(v)\<close>.  An object or an array is first converted to a primitive value, by
  \<open>valueOf\<close> and then \<open>toString\<close>: the inherited \<open>valueOf\<close> returns the object itself, so
  the primitive value is the string that \<open>toString\<close> gives, or a TypeError is thrown.
\<close>

fun ToNumber :: "host \<Rightarrow> jsval \<Rightarrow> jserror + jsnum" where
  "ToNumber h JUndefined = Inr NaN"
| "ToNumber h JNull = Inr (Fin 0)"
| "ToNumber h (JBool b) = Inr (if b then Fin 1 else Fin 0)"
| "ToNumber h (JNum n) = Inr n"
| "ToNumber h (JStr s) = Inr (StringToNumber h s)"
| "ToNumber h (JArr xs) =
     (case ToString h (JArr xs) of Inl e \<Rightarrow> Inl e | Inr s \<Rightarrow> Inr (StringToNumber h s))"
| "ToNumber h (JObj ps) =
     (case ToString h (JObj ps) of Inl e \<Rightarrow> Inl e | Inr s \<Rightarrow> Inr (StringToNumber h s))"

text \<open>
  Property access \<open>v.k\<close> for the keys that the module reads: \<open>cadence\<close>, \<open>dateStart\<close>,
  \<open>type\<close>, \<open>interval\<close>, \<open>weekday\<close> and \<open>weekOfMonth\<close>, none of which names a property of an
  array, of a string or of a built-in prototype.  Reading a property of \<open>null\<close> or
  \<open>undefined\<close> throws a TypeError; \<open>v?.k\<close> yields \<open>undefined\<close> there instead.
\<close>

fun getProp :: "jsval \<Rightarrow> string \<Rightarrow> jserror + jsval" where
  "getProp JUndefined k = Inl TypeError"
| "getProp JNull k = Inl TypeError"
| "getProp (JObj ps) k = Inr (case map_of ps k of Some v \<Rightarrow> v | None \<Rightarrow> JUndefined)"
| "getProp v k = Inr JUndefined"

fun getPropOptional :: "jsval \<Rightarrow> string \<Rightarrow> jserror + jsval" where
  "getPropOptional JUndefined k = Inr JUndefined"
| "getPropOptional JNull k = Inr JUndefined"
| "getPropOptional v k = getProp v k"

text \<open>\<open>typeof v === "object"\<close>\<close>

fun typeofObject :: "jsval \<Rightarrow> bool" where
  "typeofObject JNull = True"
| "typeofObject (JArr xs) = True"
| "typeofObject (JObj ps) = True"
| "typeofObject v = False"

text \<open>\<open>a ?? b\<close>\<close>

fun nullish :: "jsval \<Rightarrow> jsval \<Rightarrow> jsval" where
  "nullish JUndefined b = b"
| "nullish JNull b = b"
| "nullish a b = a"

text \<open>What a resolver returns: \<open>null\<close> or a Date object.\<close>

datatype dateOrNull = IsNull | IsDate date

definition isValidDate :: "date \<Rightarrow> bool" where
  "isValidDate d = (getTime d \<noteq> NaN)"

text \<open>
  \<open>new Date(value)\<close> for a value read from the event record: an object or an array is
  converted to a primitive value first; a string is parsed, any other primitive value is
  converted to a number.
\<close>

fun newDateOfValue :: "host \<Rightarrow> jsval \<Rightarrow> jserror + date" where
  "newDateOfValue h (JStr s) = Inr (dateOfTime (DateParse h s))"
| "newDateOfValue h (JArr xs) =
     (case ToString h (JArr xs) of Inl e \<Rightarrow> Inl e | Inr s \<Rightarrow> Inr (dateOfTime (DateParse h s)))"
| "newDateOfValue h (JObj ps) =
     (case ToString h (JObj ps) of Inl e \<Rightarrow> Inl e | Inr s \<Rightarrow> Inr (dateOfTime (DateParse h s)))"
| "newDateOfValue h v =
     (case ToNumber h v of Inl e \<Rightarrow> Inl e | Inr n \<Rightarrow> Inr (dateOfTime n))"

definition parseDate :: "host \<Rightarrow> jsval \<Rightarrow> jserror + dateOrNull" where
  "parseDate h v =
     (if \<not> ToBoolean v then Inr IsNull
      else case newDateOfValue h v of
             Inl e \<Rightarrow> Inl e
           | Inr d \<Rightarrow> Inr (if isValidDate d then IsDate d else IsNull))"

section \<open>Cadence to next occurrence\<close>

text \<open>
  The loop \<open>while (candidate.getTime() <= now.getTime()) candidate = addWeeks(candidate, intv)\<close>.
  \<open>None\<close> stands for a loop that does not end.
\<close>

partial_function (option) weeklyCatchUp :: "zone \<Rightarrow> date \<Rightarrow> jsnum \<Rightarrow> date \<Rightarrow> date option" where
  "weeklyCatchUp z candidate intv now =
     (if jle (getTime candidate) (getTime now)
      then weeklyCatchUp z (addWeeks z candidate intv) intv now
      else Some candidate)"

declare weeklyCatchUp.simps [code]

text \<open>
  The resolvers.  The outcome of a call is \<open>None\<close> when it does not return, \<open>Some (Inl e)\<close>
  when it throws \<open>e\<close>, and \<open>Some (Inr r)\<close> when it returns \<open>r\<close>; the monthly resolver, whose
  loop is bounded, gives \<open>Inl e\<close> or \<open>Inr r\<close>.
\<close>

definition nextWeeklyOccurrence ::
  "zone \<Rightarrow> host \<Rightarrow> dateOrNull \<Rightarrow> jsval \<Rightarrow> jsval \<Rightarrow> date \<Rightarrow> (jserror + dateOrNull) option" where
  "nextWeeklyOccurrence z h anchorStart interval weekday now =
     (case anchorStart of
        IsNull \<Rightarrow> Some (Inr IsNull)
      | IsDate anchor \<Rightarrow>
          (case ToNumber h (nullish interval (JNum (num 1))) of
             Inl e \<Rightarrow> Some (Inl e)
           | Inr intv \<Rightarrow>
               (case ToNumber h weekday of
                  Inl e \<Rightarrow> Some (Inl e)
                | Inr wd \<Rightarrow>
                    if \<not> isFinite intv \<or> jlt intv (num 1) \<or> \<not> isFinite wd
                       \<or> jlt wd (num 0) \<or> jgt wd (num 6)
                    then Some (Inr IsNull)
                    else
                      (let anchorDay = startOfDay z anchor;
                           deltaToWd = jmod (jadd (jsub wd (getDay z anchorDay)) (num 7)) (num 7);
                           firstDay = addDays z anchorDay deltaToWd;
                           base0 = setTimeFromAnchor z firstDay anchor;
                           base = (if jlt (getTime base0) (getTime anchor)
                                   then addWeeks z base0 (num 1) else base0)
                       in if jgt (getTime base) (getTime now) then Some (Inr (IsDate base))
                          else
                            (let w = weeksBetween z base now;
                                 blocks = jfloor (jdiv w intv);
                                 candidate = addWeeks z base (jmul blocks intv)
                             in map_option (\<lambda>d. Inr (IsDate d))
                                  (weeklyCatchUp z candidate intv now))))))"

definition nthWeekdayOfMonth :: "zone \<Rightarrow> jsnum \<Rightarrow> jsnum \<Rightarrow> jsnum \<Rightarrow> jsnum \<Rightarrow> date" where
  "nthWeekdayOfMonth z year monthIndex weekday weekOfMonth =
     (let first = newDate z year monthIndex (num 1);
          offset = jmod (jadd (jsub weekday (getDay z first)) (num 7)) (num 7);
          day = jadd (jadd (num 1) offset) (jmul (jsub weekOfMonth (num 1)) (num 7))
      in newDate z year monthIndex day)"

text \<open>
  The loop \<open>for (let i = 0; i < 24; i++)\<close> of the monthly resolver; the first argument
  is the number of iterations left, \<open>24 - i\<close>.
\<close>

fun monthlyScan ::
  "zone \<Rightarrow> nat \<Rightarrow> date \<Rightarrow> jsnum \<Rightarrow> jsnum \<Rightarrow> date \<Rightarrow> date \<Rightarrow> dateOrNull" where
  "monthlyScan z 0 cursor wd wom anchor now = IsNull"
| "monthlyScan z (Suc n) cursor wd wom anchor now =
     (let occDateOnly = nthWeekdayOfMonth z (getFullYear z cursor) (getMonth z cursor) wd wom;
          occ = setTimeFromAnchor z occDateOnly anchor
      in if jlt (getTime occ) (getTime anchor)
         then monthlyScan z n (addMonths z cursor (num 1)) wd wom anchor now
         else if jgt (getTime occ) (getTime now) then IsDate occ
         else monthlyScan z n (addMonths z cursor (num 1)) wd wom anchor now)"

definition nextMonthlyOccurrence ::
  "zone \<Rightarrow> host \<Rightarrow> dateOrNull \<Rightarrow> jsval \<Rightarrow> jsval \<Rightarrow> date \<Rightarrow> jserror + dateOrNull" where
  "nextMonthlyOccurrence z h anchorStart weekday weekOfMonth now =
     (case anchorStart of
        IsNull \<Rightarrow> Inr IsNull
      | IsDate anchor \<Rightarrow>
          (case ToNumber h weekday of
             Inl e \<Rightarrow> Inl e
           | Inr wd \<Rightarrow>
               (case ToNumber h weekOfMonth of
                  Inl e \<Rightarrow> Inl e
                | Inr wom \<Rightarrow>
                    if \<not> isFinite wd \<or> jlt wd (num 0) \<or> jgt wd (num 6)
                       \<or> \<not> isFinite wom \<or> jlt wom (num 1) \<or> jgt wom (num 5)
                    then Inr IsNull
                    else
                      (let cursor = newDate z (getFullYear z now) (getMonth z now) (num 1)
                       in Inr (monthlyScan z 24 cursor wd wom anchor now)))))"

text \<open>The dispatcher, with the same outcomes as the weekly resolver.\<close>

definition nextOccurrenceForEvent ::
  "zone \<Rightarrow> host \<Rightarrow> jsval \<Rightarrow> date \<Rightarrow> (jserror + dateOrNull) option" where
  "nextOccurrenceForEvent z h ev now =
     (case getPropOptional ev ''cadence'' of
        Inl e \<Rightarrow> Some (Inl e)
      | Inr cadence \<Rightarrow>
          if \<not> ToBoolean cadence \<or> \<not> typeofObject cadence then Some (Inr IsNull)
          else
            (case getProp ev ''dateStart'' of
               Inl e \<Rightarrow> Some (Inl e)
             | Inr dateStart \<Rightarrow>
                 (case parseDate h dateStart of
                    Inl e \<Rightarrow> Some (Inl e)
                  | Inr anchorStart \<Rightarrow>
                      if anchorStart = IsNull then Some (Inr IsNull)
                      else
                        (case getProp cadence ''type'' of
                           Inl e \<Rightarrow> Some (Inl e)
                         | Inr ty \<Rightarrow>
                             if ty = JStr ''weekly''
                             then
                               (case (getProp cadence ''interval'', getProp cadence ''weekday'') of
                                  (Inr interval, Inr weekday) \<Rightarrow>
                                    nextWeeklyOccurrence z h anchorStart interval weekday now
                                | _ \<Rightarrow> Some (Inl TypeError))
                             else if ty = JStr ''monthly''
                             then
                               (case (getProp cadence ''weekday'', getProp cadence ''weekOfMonth'') of
                                  (Inr weekday, Inr weekOfMonth) \<Rightarrow>
                                    Some (nextMonthlyOccurrence z h anchorStart weekday
                                            weekOfMonth now)
                                | _ \<Rightarrow> Some (Inl TypeError))
                             else Some (Inr IsNull)))))"

text \<open>
  A host for the worked examples: it reads the one ISO date-time string they use and no
  other string, and the examples print no number.
\<close>

definition exampleHost :: host where
  "exampleHost =
     \<lparr> StringToNumber = (\<lambda>s. NaN),
       NumberToString = (\<lambda>n. ''NaN''),
       DateParse = (\<lambda>s. if s = ''2024-01-01T09:00:00Z'' then num 1704099600000 else NaN) \<rparr>"

text \<open>A number that is finite and lies in a closed range, or is finite and at least a bound.\<close>

definition finiteWithin :: "rat \<Rightarrow> rat \<Rightarrow> jsnum \<Rightarrow> bool" where
  "finiteWithin lo hi n = (case n of Fin r \<Rightarrow> lo \<le> r \<and> r \<le> hi | _ \<Rightarrow> False)"

definition finiteAtLeast :: "rat \<Rightarrow> jsnum \<Rightarrow> bool" where
  "finiteAtLeast lo n = (case n of Fin r \<Rightarrow> lo \<le> r | _ \<Rightarrow> False)"

text \<open>
  The value of the variable \<open>base\<close> of \<open>nextWeeklyOccurrence\<close>: the first day on or after
  the anchor's day that falls on the target weekday, at the anchor's time of day.
\<close>

definition weeklyBase :: "zone \<Rightarrow> date \<Rightarrow> jsnum \<Rightarrow> date" where
  "weeklyBase z anchor wd =
     (let anchorDay = startOfDay z anchor;
          deltaToWd = jmod (jadd (jsub wd (getDay z anchorDay)) (num 7)) (num 7);
          firstDay = addDays z anchorDay deltaToWd;
          base0 = setTimeFromAnchor z firstDay anchor
      in if jlt (getTime base0) (getTime anchor) then addWeeks z base0 (num 1) else base0)"

text \<open>
  The value of the variable \<open>candidate\<close> of \<open>nextWeeklyOccurrence\<close> when the loop is entered:
  \<open>base\<close> moved forward by \<open>blocks * intv\<close> weeks.
\<close>

definition weeklyCandidate :: "zone \<Rightarrow> date \<Rightarrow> jsnum \<Rightarrow> date \<Rightarrow> date" where
  "weeklyCandidate z base intv now =
     (let w = weeksBetween z base now;
          blocks = jfloor (jdiv w intv)
      in addWeeks z base (jmul blocks intv))"

text \<open>The time values that a valid Date can hold.\<close>

definition validTime :: "int \<Rightarrow> bool" where
  "validTime t = (\<bar>t\<bar> \<le> maxTime)"

text \<open>
  Months counted from January of year 0: month \<open>k\<close> is month \<open>k mod 12\<close> of year
  \<open>k div 12\<close>, and \<open>firstOfMonth k\<close> is the day number of its first day.
\<close>

definition firstOfMonth :: "int \<Rightarrow> int" where
  "firstOfMonth k = DayFromYear (k div 12) + monthStart (leapYear (k div 12)) (k mod 12)"

text \<open>The month of a time value, counted from January of year 0.\<close>

definition monthIndex :: "int \<Rightarrow> int" where
  "monthIndex t = 12 * YearFromTime t + MonthFromTime t"

text \<open>The Date at midnight of the first day of month \<open>k\<close>.\<close>

definition firstOfMonthDate :: "int \<Rightarrow> date" where
  "firstOfMonthDate k = dateOfTime (num (firstOfMonth k * msPerDay))"

text \<open>
  The arithmetic of \<open>nthWeekdayOfMonth\<close> on day numbers: the day of the \<open>wom\<close>-th weekday
  \<open>wd\<close> of month \<open>k\<close>, and the time value of that day at the time of day of \<open>a\<close>.
\<close>

definition occurrenceDay :: "int \<Rightarrow> int \<Rightarrow> int \<Rightarrow> int" where
  "occurrenceDay k wd wom =
     firstOfMonth k + (wd - (firstOfMonth k + 4)) mod 7 + 7 * (wom - 1)"

definition monthlyOccurrence :: "int \<Rightarrow> int \<Rightarrow> int \<Rightarrow> int \<Rightarrow> int" where
  "monthlyOccurrence k wd wom a = occurrenceDay k wd wom * msPerDay + TimeWithinDay a"

text \<open>
  The monthly search as the specification describes it, on month indices: the occurrence
  of month \<open>k\<close> is acceptable when it is a valid time value, not before the anchor \<open>a\<close> and
  strictly after \<open>n\<close>; the search returns the first acceptable occurrence among those of
  the \<open>m\<close> months from \<open>k\<close> on.
\<close>

definition acceptable :: "int \<Rightarrow> int \<Rightarrow> int \<Rightarrow> bool" where
  "acceptable a n t = (validTime t \<and> a \<le> t \<and> n < t)"

fun searchMonths :: "nat \<Rightarrow> int \<Rightarrow> int \<Rightarrow> int \<Rightarrow> int \<Rightarrow> int \<Rightarrow> int option" where
  "searchMonths 0 k wd wom a n = None"
| "searchMonths (Suc m) k wd wom a n =
     (if acceptable a n (monthlyOccurrence k wd wom a) then Some (monthlyOccurrence k wd wom a)
      else searchMonths m (k + 1) wd wom a n)"

text \<open>
  The values that the dispatcher reads from an event: \<open>ev?.cadence\<close>, and a property of an
  object that is known not to be \<open>null\<close> or \<open>undefined\<close>.
\<close>

definition cadenceOf :: "jsval \<Rightarrow> jsval" where
  "cadenceOf ev = (case getPropOptional ev ''cadence'' of Inr c \<Rightarrow> c | Inl e \<Rightarrow> JUndefined)"

definition field :: "jsval \<Rightarrow> string \<Rightarrow> jsval" where
  "field v k = (case getProp v k of Inr x \<Rightarrow> x | Inl e \<Rightarrow> JUndefined)"

fun isObject :: "jsval \<Rightarrow> bool" where
  "isObject (JArr xs) = True"
| "isObject (JObj ps) = True"
| "isObject v = False"


text \<open>
  A zone with daylight saving, for the worked examples: Western European Time with summer
  time from 01:00 UTC on the last Sunday of March to 01:00 UTC on the last Sunday of
  October, the rule of Europe/London since 1996, applied to every year.  \<open>lastSunday y m\<close>
  is the day number of the last Sunday of month \<open>m\<close> of year \<open>y\<close>.
\<close>

definition lastSunday :: "int \<Rightarrow> int \<Rightarrow> int" where
  "lastSunday y m =
     (let e = firstOfMonth (12 * y + m + 1) - 1 in e - WeekDay (e * msPerDay))"

definition summerTime :: "int \<Rightarrow> bool" where
  "summerTime t =
     (let y = YearFromTime t
      in lastSunday y 2 * msPerDay + msPerHour \<le> t
         \<and> t < lastSunday y 9 * msPerDay + msPerHour)"

definition london :: zone where
  "london = (\<lambda>t isUTC. if summerTime (if isUTC then t else t - msPerHour) then msPerHour else 0)"

text \<open>A zone whose offsets from UTC are of at most a day.\<close>

definition boundedZone :: "zone \<Rightarrow> bool" where
  "boundedZone z = (\<forall>t b. \<bar>z t b\<bar> \<le> msPerDay)"
section \<open>The calendar\<close>

lemma div_step:
  fixes x k :: int
  assumes "0 < k"
  shows "(x + 1) div k = x div k + (if (x + 1) mod k = 0 then 1 else 0)"
proof -
  define q where "q = x div k"
  define r where "r = x mod k"
  have x: "x = k * q + r" and r: "0 \<le> r" "r < k"
    using assms by (simp_all add: q_def r_def)
  show ?thesis
  proof (cases "r = k - 1")
    case True
    then have e: "x + 1 = k * (q + 1) + 0" using x by (simp add: algebra_simps)
    have "(x + 1) div k = q + 1" using assms by (intro int_div_pos_eq [OF e]) simp_all
    moreover have "(x + 1) mod k = 0" using assms by (intro int_mod_pos_eq [OF e]) simp_all
    ultimately show ?thesis by (simp add: q_def)
  next
    case False
    then have rr: "0 \<le> r + 1" "r + 1 < k" using r by simp_all
    have e: "x + 1 = k * q + (r + 1)" using x by simp
    have "(x + 1) div k = q" by (rule int_div_pos_eq [OF e rr])
    moreover have "(x + 1) mod k = r + 1" by (rule int_mod_pos_eq [OF e rr])
    ultimately show ?thesis using r by (simp add: q_def)
  qed
qed

lemma DayFromYear_Suc: "DayFromYear (y + 1) = DayFromYear y + DaysInYear y"
proof -
  have m4: "(y - 1969 + 1) mod 4 = 0 \<longleftrightarrow> y mod 4 = 0"
    using mod_mult_self2 [of y 4 "- 492"] by simp
  have m100: "(y - 1901 + 1) mod 100 = 0 \<longleftrightarrow> y mod 100 = 0"
    using mod_mult_self2 [of y 100 "- 19"] by simp
  have m400: "(y - 1601 + 1) mod 400 = 0 \<longleftrightarrow> y mod 400 = 0"
    using mod_mult_self2 [of y 400 "- 4"] by simp
  have a: "(y + 1 - 1969) div 4 = (y - 1969) div 4 + (if y mod 4 = 0 then 1 else 0)"
    using div_step [of 4 "y - 1969"] m4 by (simp add: algebra_simps)
  have b: "(y + 1 - 1901) div 100 = (y - 1901) div 100 + (if y mod 100 = 0 then 1 else 0)"
    using div_step [of 100 "y - 1901"] m100 by (simp add: algebra_simps)
  have c: "(y + 1 - 1601) div 400 = (y - 1601) div 400 + (if y mod 400 = 0 then 1 else 0)"
    using div_step [of 400 "y - 1601"] m400 by (simp add: algebra_simps)
  have d1: "y mod 4 = 0" if "y mod 100 = 0"
  proof -
    from that have "100 dvd y" by (simp add: dvd_eq_mod_eq_0)
    moreover have "(4::int) dvd 100" by simp
    ultimately have "4 dvd y" by (rule dvd_trans [rotated])
    then show ?thesis by simp
  qed
  have d2: "y mod 100 = 0" if "y mod 400 = 0"
  proof -
    from that have "400 dvd y" by (simp add: dvd_eq_mod_eq_0)
    moreover have "(100::int) dvd 400" by simp
    ultimately have "100 dvd y" by (rule dvd_trans [rotated])
    then show ?thesis by simp
  qed
  show ?thesis
    unfolding DayFromYear_def DaysInYear_def a b c using d1 d2 by auto
qed

lemma DaysInYear_cases: "DaysInYear y = 365 \<or> DaysInYear y = 366"
  by (simp add: DaysInYear_def)

lemma leapYear_cases: "leapYear y = 0 \<or> leapYear y = 1"
  by (simp add: leapYear_def)

lemma DaysInYear_leapYear: "DaysInYear y = 365 + leapYear y"
  using DaysInYear_cases [of y] by (auto simp: leapYear_def)

lemma DayFromYear_less: "y < y' \<Longrightarrow> DayFromYear y + 365 \<le> DayFromYear y'"
proof (induction y' rule: int_gr_induct)
  case base
  then show ?case using DayFromYear_Suc [of y] DaysInYear_cases [of y] by auto
next
  case (step i)
  then show ?case using DayFromYear_Suc [of i] DaysInYear_cases [of i] by auto
qed

lemma DayFromYear_mono: "y \<le> y' \<Longrightarrow> DayFromYear y \<le> DayFromYear y'"
  using DayFromYear_less [of y y'] by (cases "y = y'") auto

lemma DayFromYear_expand:
  fixes y :: int
  shows "400 * DayFromYear y =
    146097 * (y - 1970) + 193 - 100 * ((y - 1969) mod 4) + 4 * ((y - 1901) mod 100)
      - (y - 1601) mod 400"
proof -
  define q4 where "q4 = (y - 1969) div 4"
  define q100 where "q100 = (y - 1901) div 100"
  define q400 where "q400 = (y - 1601) div 400"
  define r4 where "r4 = (y - 1969) mod 4"
  define r100 where "r100 = (y - 1901) mod 100"
  define r400 where "r400 = (y - 1601) mod 400"
  have e: "4 * q4 = y - 1969 - r4" "100 * q100 = y - 1901 - r100" "400 * q400 = y - 1601 - r400"
    unfolding q4_def r4_def q100_def r100_def q400_def r400_def
    by (simp_all add: minus_mod_eq_mult_div)
  have "400 * DayFromYear y = 400 * (365 * (y - 1970) + q4 - q100 + q400)"
    unfolding DayFromYear_def q4_def q100_def q400_def by simp
  also have "\<dots> = 146000 * (y - 1970) + 100 * (4 * q4) - 4 * (100 * q100) + 400 * q400"
    by (simp add: algebra_simps)
  also have "\<dots> = 146000 * (y - 1970) + 100 * (y - 1969 - r4) - 4 * (y - 1901 - r100)
      + (y - 1601 - r400)"
    unfolding e by (rule refl)
  also have "\<dots> = 146097 * (y - 1970) + 193 - 100 * r4 + 4 * r100 - r400"
    by (simp add: algebra_simps)
  finally show ?thesis unfolding r4_def r100_def r400_def .
qed

lemma DayFromYear_approx:
  "146097 * (y - 1970) - 506 \<le> 400 * DayFromYear y"
  "400 * DayFromYear y \<le> 146097 * (y - 1970) + 589"
proof -
  define r4 where "r4 = (y - 1969) mod 4"
  define r100 where "r100 = (y - 1901) mod 100"
  define r400 where "r400 = (y - 1601) mod 400"
  have r: "0 \<le> r4" "r4 < 4" "0 \<le> r100" "r100 < 100" "0 \<le> r400" "r400 < 400"
    unfolding r4_def r100_def r400_def by simp_all
  have d: "400 * DayFromYear y = 146097 * (y - 1970) + 193 - 100 * r4 + 4 * r100 - r400"
    unfolding r4_def r100_def r400_def by (rule DayFromYear_expand)
  show "146097 * (y - 1970) - 506 \<le> 400 * DayFromYear y"
    unfolding d using r by linarith
  show "400 * DayFromYear y \<le> 146097 * (y - 1970) + 589"
    unfolding d using r by linarith
qed

lemma YearFromDay_bounds:
  "DayFromYear (YearFromDay d) \<le> d" "d < DayFromYear (YearFromDay d + 1)"
proof -
  define y where "y = 1970 + (400 * d) div 146097"
  define r where "r = (400 * d) mod 146097"
  have e: "146097 * (y - 1970) = 400 * d - r"
    unfolding y_def r_def by (simp add: minus_mod_eq_mult_div)
  have rb: "0 \<le> r" "r < 146097" unfolding r_def by simp_all
  define a where "a = DayFromYear (y - 1)"
  define b where "b = DayFromYear (y + 2)"
  have "146097 * (y - 1 - 1970) = 146097 * (y - 1970) - 146097" by (simp add: algebra_simps)
  then have "400 * a \<le> 400 * d - r - 146097 + 589"
    using DayFromYear_approx(2) [of "y - 1"] e unfolding a_def by simp
  then have "400 * a \<le> 400 * d" using rb by simp
  then have lo: "a \<le> d" by simp
  have "146097 * (y + 2 - 1970) = 146097 * (y - 1970) + 292194" by (simp add: algebra_simps)
  then have "400 * d - r + 292194 - 506 \<le> 400 * b"
    using DayFromYear_approx(1) [of "y + 2"] e unfolding b_def by simp
  then have "400 * d < 400 * b" using rb by linarith
  then have hi: "d < b" by simp
  have yfd: "YearFromDay d = (if d < DayFromYear y then y - 1
         else if DayFromYear (y + 1) \<le> d then y + 1 else y)"
    unfolding YearFromDay_def y_def by (simp add: Let_def)
  have two: "y + 1 + 1 = y + 2" by simp
  show "DayFromYear (YearFromDay d) \<le> d"
    unfolding yfd using lo unfolding a_def by auto
  show "d < DayFromYear (YearFromDay d + 1)"
    unfolding yfd using hi unfolding b_def by (auto simp: two)
qed

lemma YearFromDay_unique:
  assumes "DayFromYear y \<le> d" "d < DayFromYear (y + 1)"
  shows "YearFromDay d = y"
proof (rule ccontr)
  assume ne: "YearFromDay d \<noteq> y"
  show False
  proof (cases "YearFromDay d < y")
    case True
    then have "DayFromYear (YearFromDay d + 1) \<le> DayFromYear y"
      by (intro DayFromYear_mono) simp
    then show False using YearFromDay_bounds(2) [of d] assms(1) by simp
  next
    case False
    then have "DayFromYear (y + 1) \<le> DayFromYear (YearFromDay d)"
      using ne by (intro DayFromYear_mono) simp
    then show False using YearFromDay_bounds(1) [of d] assms(2) by simp
  qed
qed

text \<open>\<open>YearFromDay d\<close> is the largest year that starts on day \<open>d\<close> or before it.\<close>

lemma YearFromDay_largest: "DayFromYear y \<le> d \<longleftrightarrow> y \<le> YearFromDay d"
proof
  assume le: "DayFromYear y \<le> d"
  show "y \<le> YearFromDay d"
  proof (rule ccontr)
    assume "\<not> y \<le> YearFromDay d"
    then have "DayFromYear (YearFromDay d + 1) \<le> DayFromYear y"
      by (intro DayFromYear_mono) simp
    then show False using YearFromDay_bounds(2) [of d] le by simp
  qed
next
  assume "y \<le> YearFromDay d"
  then have "DayFromYear y \<le> DayFromYear (YearFromDay d)" by (rule DayFromYear_mono)
  then show "DayFromYear y \<le> d" using YearFromDay_bounds(1) [of d] by simp
qed

text \<open>Two known dates: Monday 2024-01-01 09:00 and Thursday 2024-02-29 00:00.\<close>

lemma calendar_known_dates:
  "YearFromTime 1704099600000 = 2024 \<and> MonthFromTime 1704099600000 = 0
   \<and> DateFromTime 1704099600000 = 1 \<and> WeekDay 1704099600000 = 1
   \<and> HourFromTime 1704099600000 = 9"
  "YearFromTime 1709164800000 = 2024 \<and> MonthFromTime 1709164800000 = 1
   \<and> DateFromTime 1709164800000 = 29 \<and> WeekDay 1709164800000 = 4"
  by code_simp+

lemma DayWithinYear_bounds:
  "0 \<le> DayWithinYear t" "DayWithinYear t < 365 + InLeapYear t"
  using YearFromDay_bounds [of "Day t"] DayFromYear_Suc [of "YearFromTime t"]
    DaysInYear_leapYear [of "YearFromTime t"]
  by (simp_all add: DayWithinYear_def YearFromTime_def InLeapYear_def)

lemma MonthFromTime_range: "0 \<le> MonthFromTime t" "MonthFromTime t \<le> 11"
  by (simp_all add: MonthFromTime_def Let_def)

lemma DateFromTime_bounds: "1 \<le> DateFromTime t" "DateFromTime t \<le> 31"
proof -
  have l: "InLeapYear t = 0 \<or> InLeapYear t = 1"
    using leapYear_cases by (simp add: InLeapYear_def)
  show "1 \<le> DateFromTime t"
    using DayWithinYear_bounds(1) [of t] l
    by (auto simp: DateFromTime_def MonthFromTime_def monthStart_def Let_def)
  show "DateFromTime t \<le> 31"
    using DayWithinYear_bounds(2) [of t] l
    by (auto simp: DateFromTime_def MonthFromTime_def monthStart_def Let_def)
qed

lemma Day_TimeWithinDay: "Day t * msPerDay + TimeWithinDay t = t"
  by (simp add: Day_def TimeWithinDay_def)

lemma TimeWithinDay_range: "0 \<le> TimeWithinDay t" "TimeWithinDay t < msPerDay"
  by (simp_all add: TimeWithinDay_def msPerDay_def)

lemma toInteger_of_int [simp]: "toInteger (of_int i) = i"
  by (simp add: toInteger_def)

lemma toInteger_nonneg: "0 \<le> r \<Longrightarrow> toInteger r = \<lfloor>r\<rfloor>"
  by (simp add: toInteger_def)

lemma firstOfMonth_MakeDay:
  "MakeDay (num y) (num m) (Fin dt) = num (firstOfMonth (12 * y + m) + toInteger dt - 1)"
proof -
  have "(12 * y + m) div 12 = y + m div 12" by simp
  moreover have "(12 * y + m) mod 12 = m mod 12" by simp
  ultimately show ?thesis
    by (simp add: MakeDay_def firstOfMonth_def Let_def num_def)
qed

text \<open>The month of a time value, counted from January of year 0.\<close>

lemma firstOfMonth_own:
  "firstOfMonth (12 * YearFromTime t + MonthFromTime t) = Day t - DateFromTime t + 1"
proof -
  have "(12 * YearFromTime t + MonthFromTime t) div 12 = YearFromTime t"
    using MonthFromTime_range [of t] by simp
  moreover have "(12 * YearFromTime t + MonthFromTime t) mod 12 = MonthFromTime t"
    using MonthFromTime_range [of t] by simp
  ultimately show ?thesis
    by (simp add: firstOfMonth_def DateFromTime_def DayWithinYear_def InLeapYear_def)
qed

section \<open>Arithmetic on integers as numbers\<close>

lemma num_arith [simp]:
  "jadd (num a) (num b) = num (a + b)"
  "jsub (num a) (num b) = num (a - b)"
  "jmul (num a) (num b) = num (a * b)"
  "jfloor (num a) = num a"
  "isFinite (num a)"
  by (simp_all add: num_def jsub_def)

lemma num_compare [simp]:
  "jlt (num a) (num b) \<longleftrightarrow> a < b"
  "jgt (num a) (num b) \<longleftrightarrow> b < a"
  "jle (num a) (num b) \<longleftrightarrow> a \<le> b"
  "jeq (num a) (num b) \<longleftrightarrow> a = b"
  by (auto simp: num_def jgt_def jle_def)

lemma num_inject [simp]:
  "num a = num b \<longleftrightarrow> a = b"
  "num a \<noteq> NaN" "NaN \<noteq> num a"
  by (simp_all add: num_def)

lemma NaN_compare [simp]:
  "\<not> jlt x NaN" "\<not> jgt NaN x" "\<not> jgt x NaN" "\<not> jle NaN x" "\<not> jle x NaN" "\<not> jeq x NaN"
  by (cases x; simp add: jgt_def jle_def)+

lemma NaN_arith [simp]:
  "jadd x NaN = NaN" "jsub NaN x = NaN" "jsub x NaN = NaN" "jmul x NaN = NaN"
  "jdiv x NaN = NaN" "jmod NaN x = NaN" "jmod x NaN = NaN"
  by (cases x; simp add: jsub_def)+

lemma floor_div_num:
  "0 < b \<Longrightarrow> jfloor (jdiv (num a) (num b)) = num (a div b)"
  by (simp add: num_def floor_divide_of_int_eq)

lemma mod_num:
  assumes "0 \<le> a" "0 < b"
  shows "jmod (num a) (num b) = num (a mod b)"
proof -
  have "0 \<le> rat_of_int a / rat_of_int b" using assms by simp
  then have "toInteger (rat_of_int a / rat_of_int b) = a div b"
    by (simp add: toInteger_nonneg floor_divide_of_int_eq)
  moreover have "a - b * (a div b) = a mod b" by (simp add: minus_mult_div_eq_mod)
  ultimately have "rat_of_int a - rat_of_int b * rat_of_int (toInteger (rat_of_int a / rat_of_int b))
        = rat_of_int (a mod b)"
    by (metis of_int_diff of_int_mult)
  then show ?thesis using assms by (simp add: num_def)
qed

section \<open>A host that keeps UTC\<close>

lemma LocalTime_utc [simp]: "LocalTime utc t = t"
  by (simp add: LocalTime_def utc_def)

lemma UTC_utc [simp]: "UTC utc (Fin r) = Fin r" "UTC utc NaN = NaN"
  by (simp_all add: UTC_def utc_def)

lemma UTC_utc_num [simp]: "UTC utc (num i) = num i"
  by (simp add: num_def)

lemma dateOfTime_UTC_utc [simp]: "dateOfTime (UTC utc v) = dateOfTime v"
  by (cases v) (simp_all add: UTC_def utc_def dateOfTime_def TimeClip_def)

section \<open>Date operations on valid time values\<close>

lemma dateOfTime_num: "dateOfTime (num i) = (if validTime i then Date i else InvalidDate)"
proof -
  have "(of_int maxTime < \<bar>rat_of_int i\<bar>) = (maxTime < \<bar>i\<bar>)"
    by (metis of_int_abs of_int_less_iff)
  then show ?thesis
    by (auto simp: dateOfTime_def TimeClip_def validTime_def num_def)
qed

lemma dateOfTime_NaN [simp]: "dateOfTime NaN = InvalidDate"
  by (simp add: dateOfTime_def TimeClip_def)

lemma MakeDate_num [simp]: "MakeDate (num d) (num t) = num (d * msPerDay + t)"
  by (simp add: MakeDate_def)

lemma MakeDate_NaN [simp]: "MakeDate NaN x = NaN" "MakeDate x NaN = NaN"
  by (simp_all add: MakeDate_def)

lemma MakeTime_num [simp]:
  "MakeTime (num h) (num m) (num s) (num ms) =
     num (h * msPerHour + m * msPerMinute + s * msPerSecond + ms)"
  by (simp add: MakeTime_def num_def)

lemma validTime_Day: "validTime t \<Longrightarrow> validTime (Day t * msPerDay)"
proof -
  assume v: "validTime t"
  have e: "Day t * msPerDay = t - TimeWithinDay t" using Day_TimeWithinDay [of t] by simp
  have t: "- maxTime \<le> t" "t \<le> maxTime" using v by (simp_all add: validTime_def)
  have "(- 8640000000000000) div 86400000 \<le> t div (86400000::int)"
    using t(1) unfolding maxTime_def by (intro zdiv_mono1) simp_all
  then have "- 100000000 \<le> Day t" by (simp add: Day_def msPerDay_def)
  then have "- maxTime \<le> Day t * msPerDay" by (simp add: msPerDay_def maxTime_def)
  moreover have "Day t * msPerDay \<le> maxTime"
    unfolding e using TimeWithinDay_range(1) [of t] t(2) by simp
  ultimately show ?thesis by (simp add: validTime_def)
qed

lemma startOfDay_Date: "validTime t \<Longrightarrow> startOfDay utc (Date t) = Date (Day t * msPerDay)"
  using validTime_Day [of t] by (simp add: startOfDay_def dateOfTime_num)

lemma startOfDay_Invalid [simp]: "startOfDay utc InvalidDate = InvalidDate"
  by (simp add: startOfDay_def)

lemma Day_mult [simp]: "Day (d * msPerDay) = d"
  by (simp add: Day_def msPerDay_def)

lemma Day_add_days: "Day (t + k * msPerDay) = Day t + k"
  by (simp add: Day_def msPerDay_def)

lemma TimeWithinDay_add_days [simp]: "TimeWithinDay (t + k * msPerDay) = TimeWithinDay t"
  by (simp add: TimeWithinDay_def msPerDay_def)

lemma mod_minute: "(t::int) mod 60000 = 1000 * (t div 1000 mod 60) + t mod 1000"
proof -
  have "t mod (1000 * 60) = 1000 * (t div 1000 mod 60) + t mod 1000"
    by (rule zmod_zmult2_eq) simp
  moreover have "(1000::int) * 60 = 60000" by simp
  ultimately show ?thesis by (simp only:)
qed
lemma mod_hour: "(t::int) mod 3600000 = 60000 * (t div 60000 mod 60) + t mod 60000"
proof -
  have "t mod (60000 * 60) = 60000 * (t div 60000 mod 60) + t mod 60000"
    by (rule zmod_zmult2_eq) simp
  moreover have "(60000::int) * 60 = 3600000" by simp
  ultimately show ?thesis by (simp only:)
qed
lemma mod_day: "(t::int) mod 86400000 = 3600000 * (t div 3600000 mod 24) + t mod 3600000"
proof -
  have "t mod (3600000 * 24) = 3600000 * (t div 3600000 mod 24) + t mod 3600000"
    by (rule zmod_zmult2_eq) simp
  moreover have "(3600000::int) * 24 = 86400000" by simp
  ultimately show ?thesis by (simp only:)
qed

lemma time_fields:
  "HourFromTime t * msPerHour + MinFromTime t * msPerMinute + SecFromTime t * msPerSecond
     + msFromTime t = TimeWithinDay t"
proof -
  define H where "H = t div 3600000 mod 24"
  define M where "M = t div 60000 mod 60"
  define S where "S = t div 1000 mod 60"
  define ms where "ms = t mod 1000"
  have "t mod 86400000 = 3600000 * H + (60000 * M + (1000 * S + ms))"
    unfolding H_def M_def S_def ms_def
    by (simp only: mod_day [of t] mod_hour [of t] mod_minute [of t])
  moreover have "H * 3600000 + M * 60000 + S * 1000 + ms = 3600000 * H + (60000 * M + (1000 * S + ms))"
    by (simp add: algebra_simps)
  ultimately show ?thesis
    unfolding HourFromTime_def MinFromTime_def SecFromTime_def msFromTime_def TimeWithinDay_def
      msPerDay_def msPerHour_def msPerMinute_def msPerSecond_def H_def M_def S_def ms_def
    by (simp only:)
qed

lemma setTimeFromAnchor_Date:
  "setTimeFromAnchor utc (Date t) (Date a) = dateOfTime (num (Day t * msPerDay + TimeWithinDay a))"
  using time_fields [of a]
  by (simp add: setTimeFromAnchor_def add.assoc)

lemma MakeTime_NaN [simp]: "MakeTime NaN m s ms = NaN"
  by (simp add: MakeTime_def)

lemma setTimeFromAnchor_Invalid [simp]:
  "setTimeFromAnchor utc InvalidDate a = InvalidDate"
  "setTimeFromAnchor utc d InvalidDate = InvalidDate"
  by (cases d; simp add: setTimeFromAnchor_def)+

lemma jadd_num_Fin [simp]: "jadd (num a) (Fin r) = Fin (of_int a + r)"
  by (simp add: num_def)

lemma addDays_Date:
  "addDays utc (Date t) (Fin r) =
     dateOfTime (num (t + (toInteger (of_int (DateFromTime t) + r) - DateFromTime t) * msPerDay))"
proof -
  have "(Day t - DateFromTime t + 1 + toInteger (of_int (DateFromTime t) + r) - 1) * msPerDay
          + TimeWithinDay t
        = t + (toInteger (of_int (DateFromTime t) + r) - DateFromTime t) * msPerDay"
    using Day_TimeWithinDay [of t] by (simp add: algebra_simps)
  then show ?thesis
    by (simp add: addDays_def firstOfMonth_MakeDay firstOfMonth_own)
qed

lemma addDays_nonneg:
  "0 \<le> r \<Longrightarrow> addDays utc (Date t) (Fin r) = dateOfTime (num (t + \<lfloor>r\<rfloor> * msPerDay))"
proof -
  assume r: "0 \<le> r"
  have "0 \<le> of_int (DateFromTime t) + r" using DateFromTime_bounds(1) [of t] r by simp
  then have "toInteger (of_int (DateFromTime t) + r) = DateFromTime t + \<lfloor>r\<rfloor>"
    by (simp add: toInteger_nonneg)
  then show ?thesis by (simp add: addDays_Date)
qed

lemma addDays_num: "addDays utc (Date t) (num k) = dateOfTime (num (t + k * msPerDay))"
proof -
  have "toInteger (rat_of_int (DateFromTime t) + rat_of_int k) = DateFromTime t + k"
    by (metis of_int_add toInteger_of_int)
  then show ?thesis by (simp add: num_def [of k] addDays_Date)
qed

lemma addDays_Invalid [simp]: "addDays utc InvalidDate x = InvalidDate"
  by (simp add: addDays_def)

lemma MakeDay_NaN [simp]: "MakeDay y m NaN = NaN"
  by (cases y; cases m; simp add: MakeDay_def)

lemma addDays_NaN [simp]: "addDays utc d NaN = InvalidDate"
  by (cases d) (simp_all add: addDays_def)

lemma jmul_Fin_num [simp]: "jmul (Fin r) (num k) = Fin (r * of_int k)"
  by (simp add: num_def)

lemma addWeeks_nonneg:
  "0 \<le> r \<Longrightarrow> addWeeks utc (Date t) (Fin r) = dateOfTime (num (t + \<lfloor>r * 7\<rfloor> * msPerDay))"
  by (simp add: addWeeks_def addDays_nonneg)

lemma addWeeks_num: "addWeeks utc (Date t) (num k) = dateOfTime (num (t + k * 7 * msPerDay))"
  by (simp add: addWeeks_def addDays_num)

lemma addWeeks_Invalid [simp]: "addWeeks utc InvalidDate x = InvalidDate"
  by (simp add: addWeeks_def)

lemma addWeeks_NaN [simp]: "addWeeks utc d NaN = InvalidDate"
  by (simp add: addWeeks_def)

section \<open>Any time zone\<close>

text \<open>
  What holds of the resolvers whatever the zone of the host: a Date that they return is
  after ``now'', and the weekly loop ends when the offsets of the zone are bounded.
\<close>

lemma UTC_num: "UTC z (num L) = num (L - z L False)"
  by (simp add: UTC_def num_def)

lemma weeklyCatchUp_after_now:
  assumes ret: "weeklyCatchUp z c intv now = Some d"
  shows "\<not> jle (getTime d) (getTime now)"
proof -
  define P where "P = (\<lambda>(z::zone) (c::date) (intv::jsnum) now d. \<not> jle (getTime d) (getTime now))"
  have "P z c intv now d"
  proof (rule weeklyCatchUp.raw_induct [where P = P, OF _ ret])
    fix f z c intv now d
    assume IH: "\<And>z c intv now d. f z c intv now = Some d \<Longrightarrow> P z c intv now d"
      and eq: "(if jle (getTime c) (getTime now) then f z (addWeeks z c intv) intv now
                else Some c) = Some d"
    show "P z c intv now d"
    proof (cases "jle (getTime c) (getTime now)")
      case True
      then have "f z (addWeeks z c intv) intv now = Some d" using eq by simp
      from IH [OF this] show ?thesis unfolding P_def .
    next
      case False
      then show ?thesis using eq unfolding P_def by simp
    qed
  qed
  then show ?thesis unfolding P_def .
qed

lemma weekly_after_now:
  assumes "nextWeeklyOccurrence z h anchorStart interval weekday (Date n)
     = Some (Inr (IsDate (Date r)))"
  shows "n < r"
proof -
  have loop: "n < r" if "weeklyCatchUp z c intv (Date n) = Some (Date r)" for c intv
    using weeklyCatchUp_after_now [OF that] by simp
  show ?thesis
    using assms loop unfolding nextWeeklyOccurrence_def Let_def
    by (auto split: dateOrNull.splits sum.splits if_splits simp: jgt_def)
qed

lemma monthlyScan_after_now:
  assumes "monthlyScan z m cursor wd wom (Date a) (Date n) = IsDate d"
  shows "\<exists>r. d = Date r \<and> n < r \<and> a \<le> r"
  using assms
proof (induction m arbitrary: cursor)
  case 0
  then show ?case by simp
next
  case (Suc m)
  define occ where "occ = setTimeFromAnchor z
     (nthWeekdayOfMonth z (getFullYear z cursor) (getMonth z cursor) wd wom) (Date a)"
  show ?case
  proof (cases "\<not> jlt (getTime occ) (getTime (Date a)) \<and> jgt (getTime occ) (getTime (Date n))")
    case False
    then have "monthlyScan z m (addMonths z cursor (num 1)) wd wom (Date a) (Date n) = IsDate d"
      using Suc.prems by (auto simp: Let_def occ_def split: if_splits)
    then show ?thesis by (rule Suc.IH)
  next
    case True
    then have o: "occ = d"
      using Suc.prems by (auto simp: Let_def occ_def split: if_splits)
    show ?thesis using True unfolding o by (cases d) (auto simp: jgt_def)
  qed
qed

lemma monthly_after_now:
  assumes "nextMonthlyOccurrence z h (IsDate (Date a)) weekday weekOfMonth (Date n) = Inr (IsDate d)"
  shows "\<exists>r. d = Date r \<and> n < r \<and> a \<le> r"
proof -
  obtain cursor wd wom where "monthlyScan z 24 cursor wd wom (Date a) (Date n) = IsDate d"
    using assms unfolding nextMonthlyOccurrence_def Let_def
    by (auto split: sum.splits if_splits)
  then show ?thesis by (rule monthlyScan_after_now)
qed

text \<open>Adding days in any zone: the days are added to the local time, which is then read as UTC.\<close>

lemma addDays_local:
  "addDays z (Date t) (Fin r) =
     dateOfTime (UTC z (num (LocalTime z t
        + (toInteger (of_int (DateFromTime (LocalTime z t)) + r) - DateFromTime (LocalTime z t))
          * msPerDay)))"
proof -
  define lt where "lt = LocalTime z t"
  have "(Day lt - DateFromTime lt + 1 + toInteger (of_int (DateFromTime lt) + r) - 1) * msPerDay
          + TimeWithinDay lt
        = lt + (toInteger (of_int (DateFromTime lt) + r) - DateFromTime lt) * msPerDay"
    using Day_TimeWithinDay [of lt] by (simp add: algebra_simps)
  then show ?thesis
    unfolding lt_def [symmetric]
    by (simp add: addDays_def firstOfMonth_MakeDay firstOfMonth_own lt_def [symmetric])
qed

lemma addWeeks_progress:
  assumes "boundedZone z" and "1 \<le> i"
  shows "addWeeks z (Date t) (Fin i) = InvalidDate
     \<or> (\<exists>t'. addWeeks z (Date t) (Fin i) = Date t' \<and> t + 5 * msPerDay \<le> t')"
proof -
  define lt where "lt = LocalTime z t"
  define k where "k = toInteger (of_int (DateFromTime lt) + i * 7) - DateFromTime lt"
  define L where "L = lt + k * msPerDay"
  have "0 \<le> of_int (DateFromTime lt) + i * 7" using DateFromTime_bounds(1) [of lt] assms(2) by simp
  then have "toInteger (of_int (DateFromTime lt) + i * 7) = DateFromTime lt + \<lfloor>i * 7\<rfloor>"
    by (simp add: toInteger_nonneg)
  moreover have "7 \<le> \<lfloor>i * 7\<rfloor>" using assms(2) by (simp add: le_floor_iff)
  ultimately have k: "7 \<le> k" unfolding k_def by simp
  have e: "addWeeks z (Date t) (Fin i) = dateOfTime (num (L - z L False))"
    unfolding addWeeks_def L_def k_def lt_def by (simp add: addDays_local UTC_num)
  have b1: "\<bar>z t True\<bar> \<le> msPerDay" and b2: "\<bar>z L False\<bar> \<le> msPerDay"
    using assms(1) by (simp_all add: boundedZone_def)
  have "7 * msPerDay \<le> k * msPerDay" using k by (simp add: msPerDay_def)
  moreover have "L = t + z t True + k * msPerDay"
    unfolding L_def lt_def LocalTime_def by simp
  ultimately have "t + 5 * msPerDay \<le> L - z L False"
    using b1 b2 by linarith
  then show ?thesis unfolding e by (simp add: dateOfTime_num)
qed

lemma weeklyCatchUp_terminates_bounded:
  assumes "boundedZone z" and "1 \<le> i"
  shows "\<exists>d. weeklyCatchUp z c (Fin i) now = Some d"
proof (cases now)
  case InvalidDate
  then show ?thesis by (subst weeklyCatchUp.simps) simp
next
  case (Date n)
  have "\<exists>d. weeklyCatchUp z (Date t) (Fin i) (Date n) = Some d" for t
  proof (induction "nat (n - t + 1)" arbitrary: t rule: less_induct)
    case less
    show ?case
    proof (cases "t \<le> n")
      case False
      then show ?thesis by (subst weeklyCatchUp.simps) simp
    next
      case True
      from addWeeks_progress [OF assms, of t] show ?thesis
      proof
        assume "addWeeks z (Date t) (Fin i) = InvalidDate"
        then show ?thesis
          by (subst weeklyCatchUp.simps, simp add: True) (subst weeklyCatchUp.simps, simp)
      next
        assume "\<exists>t'. addWeeks z (Date t) (Fin i) = Date t' \<and> t + 5 * msPerDay \<le> t'"
        then obtain t' where t': "addWeeks z (Date t) (Fin i) = Date t'" "t + 5 * msPerDay \<le> t'"
          by blast
        have "t < t'" using t'(2) by (simp add: msPerDay_def)
        then have "nat (n - t' + 1) < nat (n - t + 1)" using True by simp
        from less [OF this] obtain d where "weeklyCatchUp z (Date t') (Fin i) (Date n) = Some d" ..
        then show ?thesis
          by (subst weeklyCatchUp.simps) (simp add: True t'(1))
      qed
    qed
  qed
  moreover have "\<exists>d. weeklyCatchUp z InvalidDate (Fin i) (Date n) = Some d"
    by (subst weeklyCatchUp.simps) simp
  ultimately show ?thesis using Date by (cases c) auto
qed

lemma weekly_returns_bounded:
  assumes "boundedZone z"
    and "ToNumber h (nullish interval (JNum (num 1))) = Inr (Fin i)" "1 \<le> i"
    and "ToNumber h weekday = Inr (Fin w)" "0 \<le> w" "w \<le> 6"
  shows "\<exists>d. nextWeeklyOccurrence z h (IsDate anchor) interval weekday now = Some (Inr (IsDate d))"
proof -
  have "\<exists>d. weeklyCatchUp z c (Fin i) now = Some d" for c
    by (rule weeklyCatchUp_terminates_bounded [OF assms(1,3)])
  then show ?thesis
    using assms(2-)
    unfolding nextWeeklyOccurrence_def Let_def
    by (auto simp: num_def jgt_def not_less)
qed

lemma boundedZone_utc: "boundedZone utc"
  by (simp add: boundedZone_def utc_def msPerDay_def)

lemma boundedZone_london: "boundedZone london"
  by (simp add: boundedZone_def london_def msPerDay_def msPerHour_def)

section \<open>The weekly resolver\<close>

lemma nextWeeklyOccurrence_valid:
  assumes "ToNumber h (nullish interval (JNum (num 1))) = Inr (Fin i)" "1 \<le> i"
    and "ToNumber h weekday = Inr (Fin w)" "0 \<le> w" "w \<le> 6"
  shows "nextWeeklyOccurrence utc h (IsDate anchor) interval weekday now =
     (let base = weeklyBase utc anchor (Fin w)
      in if jgt (getTime base) (getTime now) then Some (Inr (IsDate base))
         else map_option (\<lambda>d. Inr (IsDate d)) (weeklyCatchUp utc (weeklyCandidate utc base (Fin i) now) (Fin i) now))"
  using assms
  by (simp add: nextWeeklyOccurrence_def weeklyBase_def weeklyCandidate_def Let_def num_def
      jgt_def not_less)

lemma WeekDay_range: "0 \<le> WeekDay t" "WeekDay t \<le> 6"
  by (simp_all add: WeekDay_def)

lemma delta_range:
  fixes x :: rat
  assumes "0 \<le> x"
  shows "0 \<le> x - 7 * of_int (toInteger (x / 7))" "x - 7 * of_int (toInteger (x / 7)) < 7"
proof -
  have t: "toInteger (x / 7) = \<lfloor>x / 7\<rfloor>" using assms by (simp add: toInteger_nonneg)
  have "of_int \<lfloor>x / 7\<rfloor> \<le> x / 7" by (rule of_int_floor_le)
  then show "0 \<le> x - 7 * of_int (toInteger (x / 7))" unfolding t by simp
  have "x / 7 < of_int \<lfloor>x / 7\<rfloor> + 1" by linarith
  then show "x - 7 * of_int (toInteger (x / 7)) < 7" unfolding t by simp
qed

lemma weeklyBase_Date:
  assumes "validTime a" "0 \<le> w" "w \<le> 6"
  shows "\<exists>k. 0 \<le> k \<and> k \<le> 6 \<and> weeklyBase utc (Date a) (Fin w) = dateOfTime (num (a + k * msPerDay))"
proof -
  define g where "g = WeekDay (Day a * msPerDay)"
  define x where "x = w - of_int g + 7"
  define delta where "delta = x - 7 * of_int (toInteger (x / 7))"
  define k where "k = \<lfloor>delta\<rfloor>"
  define s where "s = Day a * msPerDay"
  have g: "0 \<le> g" "g \<le> 6" unfolding g_def by (rule WeekDay_range)+
  have "rat_of_int g \<le> 6" using g(2) of_int_le_iff [of g 6, where ?'a = rat] by simp
  then have x: "0 \<le> x" unfolding x_def using assms(2) by linarith
  have d: "0 \<le> delta" "delta < 7" unfolding delta_def by (rule delta_range [OF x])+
  have k: "0 \<le> k" "k \<le> 6" unfolding k_def using d by (simp_all add: floor_less_iff le_floor_iff)
  have sod: "startOfDay utc (Date a) = Date s" unfolding s_def by (rule startOfDay_Date [OF assms(1)])
  have vs: "validTime s" unfolding s_def by (rule validTime_Day [OF assms(1)])
  have dl: "jmod (jadd (jsub (Fin w) (getDay utc (Date s))) (num 7)) (num 7) = Fin delta"
    unfolding delta_def x_def g_def s_def by (simp add: num_def jsub_def)
  have first: "addDays utc (Date s) (Fin delta) = dateOfTime (num (s + k * msPerDay))"
    unfolding k_def by (rule addDays_nonneg [OF d(1)])
  have as: "a = s + TimeWithinDay a" unfolding s_def using Day_TimeWithinDay [of a] by simp
  have base0: "setTimeFromAnchor utc (dateOfTime (num (s + k * msPerDay))) (Date a)
      = dateOfTime (num (a + k * msPerDay))"
  proof (cases "validTime (s + k * msPerDay)")
    case True
    have "Day (s + k * msPerDay) = Day a + k" unfolding s_def by (simp add: Day_add_days)
    then have "Day (s + k * msPerDay) * msPerDay + TimeWithinDay a = a + k * msPerDay"
      using Day_TimeWithinDay [of a] by (simp add: algebra_simps)
    then show ?thesis using True by (simp add: dateOfTime_num setTimeFromAnchor_Date)
  next
    case False
    have "- maxTime \<le> s" using vs by (simp add: validTime_def)
    moreover have "0 \<le> k * msPerDay" using k by (simp add: msPerDay_def)
    ultimately have "maxTime < s + k * msPerDay" using False by (simp add: validTime_def)
    then have "maxTime < a + k * msPerDay" using as TimeWithinDay_range(1) [of a] by linarith
    then have "\<not> validTime (a + k * msPerDay)" by (simp add: validTime_def)
    then show ?thesis using False by (simp add: dateOfTime_num)
  qed
  have nlt: "\<not> jlt (getTime (dateOfTime (num (a + k * msPerDay)))) (getTime (Date a))"
    using k by (simp add: dateOfTime_num msPerDay_def)
  have "weeklyBase utc (Date a) (Fin w) = dateOfTime (num (a + k * msPerDay))"
    unfolding weeklyBase_def Let_def sod dl first base0 using nlt by simp
  then show ?thesis using k by blast
qed

lemma same_time_of_day:
  "HourFromTime (a + k * msPerDay) = HourFromTime a"
  "MinFromTime (a + k * msPerDay) = MinFromTime a"
  "SecFromTime (a + k * msPerDay) = SecFromTime a"
  "msFromTime (a + k * msPerDay) = msFromTime a"
proof -
  have h: "k * 86400000 = (k * 24) * 3600000" by simp
  have m: "k * 86400000 = (k * 24 * 60) * 60000" by simp
  have s: "k * 86400000 = (k * 24 * 60 * 60) * 1000" by simp
  have "(a + k * 86400000) div 3600000 = k * 24 + a div 3600000"
    unfolding h by (rule div_mult_self1) simp
  then show "HourFromTime (a + k * msPerDay) = HourFromTime a"
    by (simp add: HourFromTime_def msPerDay_def msPerHour_def)
  have "(a + k * 86400000) div 60000 = k * 24 * 60 + a div 60000"
    unfolding m by (rule div_mult_self1) simp
  moreover have "(60 * (24 * k) + a div 60000) mod 60 = a div 60000 mod 60"
    by (rule mod_mult_self4)
  ultimately show "MinFromTime (a + k * msPerDay) = MinFromTime a"
    by (simp add: MinFromTime_def msPerDay_def msPerMinute_def)
  have "(a + k * 86400000) div 1000 = k * 24 * 60 * 60 + a div 1000"
    unfolding s by (rule div_mult_self1) simp
  moreover have "(60 * (1440 * k) + a div 1000) mod 60 = a div 1000 mod 60"
    by (rule mod_mult_self4)
  ultimately show "SecFromTime (a + k * msPerDay) = SecFromTime a"
    by (simp add: SecFromTime_def msPerDay_def msPerSecond_def)
  have "(a + k * 86400000) mod 1000 = a mod 1000"
    unfolding s by (rule mod_mult_self1)
  then show "msFromTime (a + k * msPerDay) = msFromTime a"
    by (simp add: msFromTime_def msPerDay_def msPerSecond_def)
qed

text \<open>Whatever the loop returns lies after ``now'', a whole number of days after \<open>b\<close>.\<close>

lemma weeklyCatchUp_result:
  assumes ret: "weeklyCatchUp utc c (Fin i) (Date n) = Some (Date r)"
    and i: "0 \<le> i"
    and grid: "c = InvalidDate \<or> (\<exists>k\<ge>0. c = Date (b + k * msPerDay))"
  shows "n < r \<and> (\<exists>k\<ge>0. r = b + k * msPerDay)"
proof -
  define P where "P = (\<lambda>z c intv now d. \<forall>r. z = utc \<longrightarrow> intv = Fin i \<longrightarrow> now = Date n \<longrightarrow>
         d = Date r \<longrightarrow> (c = InvalidDate \<or> (\<exists>k\<ge>0. c = Date (b + k * msPerDay))) \<longrightarrow>
         n < r \<and> (\<exists>k\<ge>0. r = b + k * msPerDay))"
  have "P utc c (Fin i) (Date n) (Date r)"
  proof (rule weeklyCatchUp.raw_induct [where P = P, OF _ ret])
    fix f z c intv now d
    assume IH: "\<And>z c intv now d. f z c intv now = Some d \<Longrightarrow> P z c intv now d"
      and eq0: "(if jle (getTime c) (getTime now) then f z (addWeeks z c intv) intv now
                else Some c) = Some d"
    show "P z c intv now d"
      unfolding P_def
    proof (intro allI impI)
      fix r
      assume zu: "z = utc" and iv: "intv = Fin i" and nw: "now = Date n" and dr: "d = Date r"
        and grid: "c = InvalidDate \<or> (\<exists>k\<ge>0. c = Date (b + k * msPerDay))"
      have eq: "(if jle (getTime c) (getTime now) then f utc (addWeeks utc c intv) intv now
                else Some c) = Some d"
        using eq0 unfolding zu .
      show "n < r \<and> (\<exists>k\<ge>0. r = b + k * msPerDay)"
      proof (cases "jle (getTime c) (getTime now)")
        case True
        then obtain k where k: "0 \<le> k" "c = Date (b + k * msPerDay)"
          using grid by auto
        have next_c: "addWeeks utc c intv = dateOfTime (num (b + (k + \<lfloor>i * 7\<rfloor>) * msPerDay))"
          unfolding k iv using i by (simp add: addWeeks_nonneg algebra_simps)
        have "0 \<le> \<lfloor>i * 7\<rfloor>" using i by simp
        then have "0 \<le> k + \<lfloor>i * 7\<rfloor>" using k(1) by simp
        then have g': "addWeeks utc c intv = InvalidDate
            \<or> (\<exists>k'\<ge>0. addWeeks utc c intv = Date (b + k' * msPerDay))"
          unfolding next_c by (auto simp: dateOfTime_num)
        have "f utc (addWeeks utc c intv) intv now = Some d" using eq True by simp
        from IH [OF this] iv nw dr g' show ?thesis unfolding P_def by blast
      next
        case False
        then have cd: "c = d" using eq by simp
        then obtain k where k: "0 \<le> k" "r = b + k * msPerDay" using grid dr by auto
        have "n < r" using False cd dr nw by simp
        then show ?thesis using k by blast
      qed
    qed
  qed
  then show ?thesis unfolding P_def using grid by blast
qed

text \<open>The loop ends for every interval of at least one week.\<close>

lemma weeklyCatchUp_terminates:
  assumes "1 \<le> i"
  shows "\<exists>d. weeklyCatchUp utc c (Fin i) now = Some d"
proof (cases now)
  case InvalidDate
  then show ?thesis by (subst weeklyCatchUp.simps) simp
next
  case (Date n)
  have "\<exists>d. weeklyCatchUp utc (Date t) (Fin i) (Date n) = Some d" for t
  proof (induction "nat (n - t + 1)" arbitrary: t rule: less_induct)
    case less
    show ?case
    proof (cases "t \<le> n")
      case False
      then show ?thesis by (subst weeklyCatchUp.simps) simp
    next
      case True
      have "7 \<le> \<lfloor>i * 7\<rfloor>" using assms by (simp add: le_floor_iff)
      then have step: "t < t + \<lfloor>i * 7\<rfloor> * msPerDay" by (simp add: msPerDay_def)
      have nx: "addWeeks utc (Date t) (Fin i) = dateOfTime (num (t + \<lfloor>i * 7\<rfloor> * msPerDay))"
        using assms by (simp add: addWeeks_nonneg)
      show ?thesis
      proof (cases "validTime (t + \<lfloor>i * 7\<rfloor> * msPerDay)")
        case False
        then have "addWeeks utc (Date t) (Fin i) = InvalidDate" unfolding nx by (simp add: dateOfTime_num)
        then show ?thesis
          by (subst weeklyCatchUp.simps, simp add: True) (subst weeklyCatchUp.simps, simp)
      next
        case v: True
        have "nat (n - (t + \<lfloor>i * 7\<rfloor> * msPerDay) + 1) < nat (n - t + 1)"
          using step True by simp
        from less [OF this] obtain d
          where "weeklyCatchUp utc (Date (t + \<lfloor>i * 7\<rfloor> * msPerDay)) (Fin i) (Date n) = Some d" ..
        then show ?thesis
          by (subst weeklyCatchUp.simps) (simp add: True nx v dateOfTime_num)
      qed
    qed
  qed
  moreover have "\<exists>d. weeklyCatchUp utc InvalidDate (Fin i) (Date n) = Some d"
    by (subst weeklyCatchUp.simps) simp
  ultimately show ?thesis using Date by (cases c) auto
qed

lemma Day_mono: "t \<le> u \<Longrightarrow> Day t \<le> Day u"
  unfolding Day_def msPerDay_def by (rule zdiv_mono1) simp_all

lemma weeksBetween_Date:
  assumes "validTime b" "validTime n"
  shows "weeksBetween utc (Date b) (Date n) = num ((Day n - Day b) div 7)"
proof -
  have "(Day n * msPerDay - Day b * msPerDay) div 604800000 = (Day n - Day b) div 7"
  proof -
    have "Day n * msPerDay - Day b * msPerDay = 86400000 * (Day n - Day b)"
      by (simp add: msPerDay_def algebra_simps)
    moreover have "(604800000::int) = 86400000 * 7" by simp
    ultimately show ?thesis by (simp only: div_mult_mult1_if) simp
  qed
  then show ?thesis
    using assms by (simp add: weeksBetween_def startOfDay_Date floor_div_num)
qed

text \<open>The candidate that enters the loop lies a whole number of days after \<open>base\<close>.\<close>

lemma weeklyCandidate_grid:
  assumes "validTime b" "validTime n" "b \<le> n" "1 \<le> i"
  shows "weeklyCandidate utc (Date b) (Fin i) (Date n) = InvalidDate
     \<or> (\<exists>k\<ge>0. weeklyCandidate utc (Date b) (Fin i) (Date n) = Date (b + k * msPerDay))"
proof -
  define w where "w = (Day n - Day b) div 7"
  define q where "q = of_int \<lfloor>rat_of_int w / i\<rfloor> * i"
  have "0 \<le> Day n - Day b" using Day_mono [OF assms(3)] by simp
  then have w: "0 \<le> w" unfolding w_def by simp
  then have "0 \<le> \<lfloor>rat_of_int w / i\<rfloor>" using assms(4) by simp
  then have q: "0 \<le> q" unfolding q_def using assms(4) by simp
  have "weeklyCandidate utc (Date b) (Fin i) (Date n) = addWeeks utc (Date b) (Fin q)"
    using assms(4)
    by (simp add: weeklyCandidate_def Let_def weeksBetween_Date [OF assms(1,2)] w_def q_def num_def)
  also have "\<dots> = dateOfTime (num (b + \<lfloor>q * 7\<rfloor> * msPerDay))"
    by (rule addWeeks_nonneg [OF q])
  finally have c: "weeklyCandidate utc (Date b) (Fin i) (Date n)
      = dateOfTime (num (b + \<lfloor>q * 7\<rfloor> * msPerDay))" .
  have q7: "0 \<le> \<lfloor>q * 7\<rfloor>" using q by simp
  show ?thesis
  proof (cases "validTime (b + \<lfloor>q * 7\<rfloor> * msPerDay)")
    case True
    then have "weeklyCandidate utc (Date b) (Fin i) (Date n) = Date (b + \<lfloor>q * 7\<rfloor> * msPerDay)"
      unfolding c by (simp add: dateOfTime_num)
    then show ?thesis using q7 by blast
  next
    case False
    then show ?thesis unfolding c by (simp add: dateOfTime_num)
  qed
qed

lemma nextWeeklyOccurrence_IsDate:
  assumes "nextWeeklyOccurrence z h (IsDate anchor) interval weekday now = Some (Inr (IsDate d))"
  shows "\<exists>i w. ToNumber h (nullish interval (JNum (num 1))) = Inr (Fin i) \<and> 1 \<le> i
     \<and> ToNumber h weekday = Inr (Fin w) \<and> 0 \<le> w \<and> w \<le> 6"
proof -
  obtain iv wd where c: "ToNumber h (nullish interval (JNum (num 1))) = Inr iv"
      "ToNumber h weekday = Inr wd"
    using assms unfolding nextWeeklyOccurrence_def by (auto split: sum.splits)
  have valid: "\<not> (\<not> isFinite iv \<or> jlt iv (num 1) \<or> \<not> isFinite wd
      \<or> jlt wd (num 0) \<or> jgt wd (num 6))"
    using assms unfolding nextWeeklyOccurrence_def Let_def c
    by (auto split: if_splits)
  then obtain i w where "iv = Fin i" "wd = Fin w"
    by (cases iv; cases wd) auto
  then show ?thesis using valid c by (auto simp: num_def jgt_def not_less)
qed

lemma weekly_result:
  assumes a: "validTime a" and n: "validTime n"
    and ret: "nextWeeklyOccurrence utc h (IsDate (Date a)) interval weekday (Date n)
       = Some (Inr (IsDate (Date r)))"
  shows "n < r \<and> (\<exists>k\<ge>0. r = a + k * msPerDay)"
proof -
  obtain i w where iv: "ToNumber h (nullish interval (JNum (num 1))) = Inr (Fin i)" "1 \<le> i"
    and wd: "ToNumber h weekday = Inr (Fin w)" "0 \<le> w" "w \<le> 6"
    using nextWeeklyOccurrence_IsDate [OF ret] by blast
  obtain k where k: "0 \<le> k" "k \<le> 6"
      and base: "weeklyBase utc (Date a) (Fin w) = dateOfTime (num (a + k * msPerDay))"
    using weeklyBase_Date [OF a wd(2,3)] by blast
  note unfold = nextWeeklyOccurrence_valid [OF iv wd, of "Date a" "Date n"]
  show ?thesis
  proof (cases "validTime (a + k * msPerDay)")
    case False
    then have b: "weeklyBase utc (Date a) (Fin w) = InvalidDate"
      unfolding base by (simp add: dateOfTime_num)
    have "weeklyCandidate utc InvalidDate (Fin i) (Date n) = InvalidDate"
      by (simp add: weeklyCandidate_def Let_def)
    moreover have "weeklyCatchUp utc InvalidDate (Fin i) (Date n) = Some InvalidDate"
      by (subst weeklyCatchUp.simps) simp
    ultimately show ?thesis using ret unfolding unfold b by (simp add: Let_def)
  next
    case True
    then have b: "weeklyBase utc (Date a) (Fin w) = Date (a + k * msPerDay)"
      unfolding base by (simp add: dateOfTime_num)
    show ?thesis
    proof (cases "n < a + k * msPerDay")
      case after: True
      then have "r = a + k * msPerDay" using ret unfolding unfold b by (simp add: Let_def)
      then show ?thesis using after k(1) by blast
    next
      case False
      then have le: "a + k * msPerDay \<le> n" by simp
      have loop: "weeklyCatchUp utc (weeklyCandidate utc (Date (a + k * msPerDay)) (Fin i) (Date n))
          (Fin i) (Date n) = Some (Date r)"
        using ret False unfolding unfold b by (auto simp: Let_def)
      have i0: "0 \<le> i" using iv(2) by simp
      from weeklyCatchUp_result [OF loop i0 weeklyCandidate_grid [OF True n le iv(2)]]
      obtain j where "n < r" "0 \<le> j" "r = a + k * msPerDay + j * msPerDay" by blast
      then have "n < r \<and> 0 \<le> k + j \<and> r = a + (k + j) * msPerDay"
        using k(1) by (simp add: algebra_simps)
      then show ?thesis by blast
    qed
  qed
qed

lemma monthlyScan_result:
  assumes "monthlyScan utc m cursor wd wom (Date a) (Date n) = IsDate (Date r)"
  shows "n < r \<and> a \<le> r \<and> (\<exists>k. r = a + k * msPerDay)"
  using assms
proof (induction m arbitrary: cursor)
  case 0
  then show ?case by simp
next
  case (Suc m)
  define occDateOnly where
    "occDateOnly = nthWeekdayOfMonth utc (getFullYear utc cursor) (getMonth utc cursor) wd wom"
  define occ where "occ = setTimeFromAnchor utc occDateOnly (Date a)"
  show ?case
  proof (cases "\<not> jlt (getTime occ) (getTime (Date a)) \<and> jgt (getTime occ) (getTime (Date n))")
    case False
    then have "monthlyScan utc m (addMonths utc cursor (num 1)) wd wom (Date a) (Date n) = IsDate (Date r)"
      using Suc.prems by (auto simp: Let_def occ_def occDateOnly_def split: if_splits)
    then show ?thesis by (rule Suc.IH)
  next
    case True
    then have o: "occ = Date r"
      using Suc.prems by (auto simp: Let_def occ_def occDateOnly_def split: if_splits)
    then obtain x where x: "occDateOnly = Date x"
      unfolding occ_def by (cases occDateOnly) simp_all
    have "dateOfTime (num (Day x * msPerDay + TimeWithinDay a)) = Date r"
      using o unfolding occ_def x by (simp add: setTimeFromAnchor_Date)
    then have "r = Day x * msPerDay + TimeWithinDay a"
      by (simp add: dateOfTime_num split: if_splits)
    then have "r = a + (Day x - Day a) * msPerDay"
      using Day_TimeWithinDay [of a] by (simp add: algebra_simps)
    then show ?thesis using True o by auto
  qed
qed

section \<open>The weekly resolver on whole-number descriptors\<close>

lemma WeekDay_add_days: "WeekDay (t + k * msPerDay) = (WeekDay t + k) mod 7"
proof -
  have "Day t + k + 4 = Day t + 4 + k" by simp
  then have "WeekDay (t + k * msPerDay) = (Day t + 4 + k) mod 7"
    by (simp only: WeekDay_def Day_add_days)
  also have "\<dots> = ((Day t + 4) mod 7 + k) mod 7" by (rule mod_add_left_eq [symmetric])
  finally show ?thesis by (simp add: WeekDay_def)
qed

lemma weeklyBase_num:
  assumes "validTime a" "0 \<le> w" "w \<le> 6"
  shows "weeklyBase utc (Date a) (num w) = dateOfTime (num (a + (w - WeekDay a) mod 7 * msPerDay))"
proof -
  define s where "s = Day a * msPerDay"
  define k where "k = (w - WeekDay a) mod 7"
  have g: "0 \<le> WeekDay a" "WeekDay a \<le> 6" by (rule WeekDay_range)+
  have gs: "WeekDay s = WeekDay a" unfolding s_def by (simp add: WeekDay_def)
  have k: "0 \<le> k" "k \<le> 6" unfolding k_def by simp_all
  have sod: "startOfDay utc (Date a) = Date s" unfolding s_def by (rule startOfDay_Date [OF assms(1)])
  have vs: "validTime s" unfolding s_def by (rule validTime_Day [OF assms(1)])
  have "(w - WeekDay a + 7) mod 7 = k" unfolding k_def by simp
  moreover have "0 \<le> w - WeekDay a + 7" using assms(2) g by simp
  ultimately have dl: "jmod (jadd (jsub (num w) (getDay utc (Date s))) (num 7)) (num 7) = num k"
    by (simp add: gs mod_num)
  have first: "addDays utc (Date s) (num k) = dateOfTime (num (s + k * msPerDay))"
    by (rule addDays_num)
  have as: "a = s + TimeWithinDay a" unfolding s_def using Day_TimeWithinDay [of a] by simp
  have base0: "setTimeFromAnchor utc (dateOfTime (num (s + k * msPerDay))) (Date a)
      = dateOfTime (num (a + k * msPerDay))"
  proof (cases "validTime (s + k * msPerDay)")
    case True
    have "Day (s + k * msPerDay) = Day a + k" unfolding s_def by (simp add: Day_add_days)
    then have "Day (s + k * msPerDay) * msPerDay + TimeWithinDay a = a + k * msPerDay"
      using Day_TimeWithinDay [of a] by (simp add: algebra_simps)
    then show ?thesis using True by (simp add: dateOfTime_num setTimeFromAnchor_Date)
  next
    case False
    have "- maxTime \<le> s" using vs by (simp add: validTime_def)
    moreover have "0 \<le> k * msPerDay" using k by (simp add: msPerDay_def)
    ultimately have "maxTime < s + k * msPerDay" using False by (simp add: validTime_def)
    then have "maxTime < a + k * msPerDay" using as TimeWithinDay_range(1) [of a] by linarith
    then have "\<not> validTime (a + k * msPerDay)" by (simp add: validTime_def)
    then show ?thesis using False by (simp add: dateOfTime_num)
  qed
  have nlt: "\<not> jlt (getTime (dateOfTime (num (a + k * msPerDay)))) (getTime (Date a))"
    using k by (simp add: dateOfTime_num msPerDay_def)
  show ?thesis
    unfolding weeklyBase_def Let_def sod dl first base0 k_def [symmetric] using nlt by simp
qed

lemma weeklyCandidate_num:
  assumes "validTime b" "validTime n" "1 \<le> i"
  shows "weeklyCandidate utc (Date b) (num i) (Date n)
     = dateOfTime (num (b + (Day n - Day b) div 7 div i * i * 7 * msPerDay))"
  using assms(3)
  by (simp add: weeklyCandidate_def Let_def weeksBetween_Date [OF assms(1,2)] floor_div_num
      addWeeks_num)

text \<open>
  From the candidate of the floor division, one more step of \<open>i\<close> weeks lands after
  ``now'' (or outside the range of Date).
\<close>

lemma one_step_passes_now:
  assumes "validTime b" "validTime n" "b \<le> n" "1 \<le> i"
  defines "q \<equiv> (Day n - Day b) div 7 div i"
  shows "n < b + (q + 1) * i * 7 * msPerDay"
proof -
  define w where "w = (Day n - Day b) div 7"
  have "w < (q + 1) * i"
  proof -
    define d where "d = w div i"
    define m where "m = w mod i"
    have "i * d + m = w" unfolding d_def m_def by (rule mult_div_mod_eq)
    moreover have "m < i" unfolding m_def using assms(4) by simp
    moreover have "(d + 1) * i = i * d + i" by (simp add: algebra_simps)
    ultimately have "w < (d + 1) * i" by linarith
    then show ?thesis unfolding q_def w_def [symmetric] d_def .
  qed
  then have "w + 1 \<le> (q + 1) * i" by simp
  then have "7 * (w + 1) \<le> 7 * ((q + 1) * i)" by simp
  moreover have "Day n - Day b < 7 * (w + 1)"
  proof -
    define D where "D = Day n - Day b"
    define m where "m = D mod 7"
    define e where "e = D div 7"
    have "7 * e + m = D" unfolding m_def e_def by (rule mult_div_mod_eq)
    moreover have "m < 7" unfolding m_def by simp
    ultimately have "D < 7 * (e + 1)" by simp
    then show ?thesis unfolding w_def D_def e_def .
  qed
  ultimately have "Day n < Day b + (q + 1) * i * 7" by (simp add: algebra_simps)
  then have "Day n < Day (b + ((q + 1) * i * 7) * msPerDay)" by (simp add: Day_add_days)
  then have "\<not> b + ((q + 1) * i * 7) * msPerDay \<le> n" using Day_mono by fastforce
  then show ?thesis by (simp add: algebra_simps)
qed

lemma weeklyCatchUp_one_step:
  assumes "validTime n" "1 \<le> i"
    and base: "base = InvalidDate \<or> (\<exists>b. base = Date b \<and> validTime b \<and> b \<le> n)"
  defines "candidate \<equiv> weeklyCandidate utc base (num i) (Date n)"
  shows "weeklyCatchUp utc candidate (num i) (Date n)
      = Some (if jle (getTime candidate) (getTime (Date n)) then addWeeks utc candidate (num i)
              else candidate)"
    and "jle (getTime candidate) (getTime (Date n))
      \<Longrightarrow> \<not> jle (getTime (addWeeks utc candidate (num i))) (getTime (Date n))"
proof -
  have passes: "jle (getTime candidate) (getTime (Date n))
      \<Longrightarrow> \<not> jle (getTime (addWeeks utc candidate (num i))) (getTime (Date n))"
  proof -
    assume le: "jle (getTime candidate) (getTime (Date n))"
    have "candidate \<noteq> InvalidDate" using le by auto
    then obtain b where b: "base = Date b" "validTime b" "b \<le> n"
      using base unfolding candidate_def by (auto simp: weeklyCandidate_def Let_def)
    define q where "q = (Day n - Day b) div 7 div i"
    have c: "candidate = dateOfTime (num (b + q * i * 7 * msPerDay))"
      unfolding candidate_def b q_def by (rule weeklyCandidate_num [OF b(2) assms(1,2)])
    then have c': "candidate = Date (b + q * i * 7 * msPerDay)"
      using \<open>candidate \<noteq> InvalidDate\<close> by (simp add: dateOfTime_num split: if_splits)
    have "addWeeks utc candidate (num i) = dateOfTime (num (b + (q + 1) * i * 7 * msPerDay))"
      unfolding c' by (simp add: addWeeks_num algebra_simps)
    moreover have "n < b + (q + 1) * i * 7 * msPerDay"
      unfolding q_def by (rule one_step_passes_now [OF b(2) assms(1) b(3) assms(2)])
    ultimately show ?thesis by (simp add: dateOfTime_num)
  qed
  show "weeklyCatchUp utc candidate (num i) (Date n)
      = Some (if jle (getTime candidate) (getTime (Date n)) then addWeeks utc candidate (num i)
              else candidate)"
  proof (cases "jle (getTime candidate) (getTime (Date n))")
    case True
    show ?thesis
      using True passes [OF True]
      by (subst weeklyCatchUp.simps, simp only: if_True) (subst weeklyCatchUp.simps, simp)
  next
    case False
    then show ?thesis by (subst weeklyCatchUp.simps) simp
  qed
  show "jle (getTime candidate) (getTime (Date n))
      \<Longrightarrow> \<not> jle (getTime (addWeeks utc candidate (num i))) (getTime (Date n))"
    by (rule passes)
qed

lemma nextWeeklyOccurrence_num:
  assumes "ToNumber h (nullish interval (JNum (num 1))) = Inr (num i)" "1 \<le> i"
    and "ToNumber h weekday = Inr (num w)" "0 \<le> w" "w \<le> 6"
  shows "nextWeeklyOccurrence utc h (IsDate anchor) interval weekday now =
     (let base = weeklyBase utc anchor (num w)
      in if jgt (getTime base) (getTime now) then Some (Inr (IsDate base))
         else map_option (\<lambda>d. Inr (IsDate d)) (weeklyCatchUp utc (weeklyCandidate utc base (num i) now) (num i) now))"
proof -
  have "1 \<le> rat_of_int i" "0 \<le> rat_of_int w" "rat_of_int w \<le> 6"
    using assms(2,4,5) of_int_le_iff [of w 6, where ?'a = rat] by simp_all
  then show ?thesis
    unfolding num_def [of i] num_def [of w]
    by (intro nextWeeklyOccurrence_valid assms(1) [unfolded num_def [of i]]
        assms(3) [unfolded num_def [of w]])
qed

text \<open>The resolver on a valid descriptor, in closed form: the loop runs at most once.\<close>

lemma weekly_closed_form:
  assumes a: "validTime a" and n: "validTime n"
    and iv: "ToNumber h (nullish interval (JNum (num 1))) = Inr (num i)" "1 \<le> i"
    and wd: "ToNumber h weekday = Inr (num w)" "0 \<le> w" "w \<le> 6"
  defines "base \<equiv> weeklyBase utc (Date a) (num w)"
  defines "candidate \<equiv> weeklyCandidate utc base (num i) (Date n)"
  shows "nextWeeklyOccurrence utc h (IsDate (Date a)) interval weekday (Date n) =
     Some (Inr (IsDate (if jgt (getTime base) (getTime (Date n)) then base
                   else if jle (getTime candidate) (getTime (Date n))
                        then addWeeks utc candidate (num i) else candidate)))"
    and "\<not> jgt (getTime base) (getTime (Date n)) \<Longrightarrow>
       weeklyCatchUp utc candidate (num i) (Date n) =
         Some (if jle (getTime candidate) (getTime (Date n)) then addWeeks utc candidate (num i)
               else candidate)"
    and "jle (getTime candidate) (getTime (Date n)) \<Longrightarrow>
       \<not> jgt (getTime base) (getTime (Date n)) \<Longrightarrow>
       \<not> jle (getTime (addWeeks utc candidate (num i))) (getTime (Date n))"
proof -
  have b: "base = dateOfTime (num (a + (w - WeekDay a) mod 7 * msPerDay))"
    unfolding base_def by (rule weeklyBase_num [OF a wd(2,3)])
  have shape: "base = InvalidDate \<or> (\<exists>b. base = Date b \<and> validTime b \<and> b \<le> n)"
    if "\<not> jgt (getTime base) (getTime (Date n))"
    using that unfolding b by (auto simp: dateOfTime_num)
  show loop: "\<not> jgt (getTime base) (getTime (Date n)) \<Longrightarrow>
       weeklyCatchUp utc candidate (num i) (Date n) =
         Some (if jle (getTime candidate) (getTime (Date n)) then addWeeks utc candidate (num i)
               else candidate)"
    unfolding candidate_def by (rule weeklyCatchUp_one_step(1) [OF n iv(2) shape])
  show "jle (getTime candidate) (getTime (Date n)) \<Longrightarrow>
       \<not> jgt (getTime base) (getTime (Date n)) \<Longrightarrow>
       \<not> jle (getTime (addWeeks utc candidate (num i))) (getTime (Date n))"
    unfolding candidate_def by (rule weeklyCatchUp_one_step(2) [OF n iv(2) shape])
  show "nextWeeklyOccurrence utc h (IsDate (Date a)) interval weekday (Date n) =
     Some (Inr (IsDate (if jgt (getTime base) (getTime (Date n)) then base
                   else if jle (getTime candidate) (getTime (Date n))
                        then addWeeks utc candidate (num i) else candidate)))"
  proof (cases "jgt (getTime base) (getTime (Date n))")
    case True
    then show ?thesis
      unfolding nextWeeklyOccurrence_num [OF iv wd] base_def by (simp add: Let_def)
  next
    case False
    show ?thesis
      unfolding nextWeeklyOccurrence_num [OF iv wd] Let_def
      using False loop [OF False] unfolding base_def candidate_def by simp
  qed
qed

lemma weekly_on_grid:
  assumes a: "validTime a" and n: "validTime n"
    and iv: "ToNumber h (nullish interval (JNum (num 1))) = Inr (num i)" "1 \<le> i"
    and wd: "ToNumber h weekday = Inr (num w)" "0 \<le> w" "w \<le> 6"
    and ret: "nextWeeklyOccurrence utc h (IsDate (Date a)) interval weekday (Date n)
       = Some (Inr (IsDate (Date r)))"
  defines "b \<equiv> a + (w - WeekDay a) mod 7 * msPerDay"
  shows "weeklyBase utc (Date a) (num w) = Date b \<and> validTime b \<and> validTime r
     \<and> (\<exists>j\<ge>0. r = b + j * i * 7 * msPerDay)"
proof -
  have base: "weeklyBase utc (Date a) (num w) = dateOfTime (num b)"
    unfolding b_def by (rule weeklyBase_num [OF a wd(2,3)])
  note cf = weekly_closed_form(1) [OF a n iv wd, unfolded ret base]
  have vb: "validTime b"
  proof (rule ccontr)
    assume "\<not> validTime b"
    then have "dateOfTime (num b) = InvalidDate" by (simp add: dateOfTime_num)
    then show False using cf by (simp add: weeklyCandidate_def Let_def)
  qed
  then have bd: "dateOfTime (num b) = Date b" by (simp add: dateOfTime_num)
  have grid: "validTime r \<and> (\<exists>j\<ge>0. r = b + j * i * 7 * msPerDay)"
  proof (cases "n < b")
    case True
    then have "r = b" using cf unfolding bd by simp
    then show ?thesis using vb by (intro conjI exI [of _ 0]) simp_all
  next
    case False
    then have le: "b \<le> n" by simp
    define q where "q = (Day n - Day b) div 7 div i"
    have "0 \<le> Day n - Day b" using Day_mono [OF le] by simp
    then have "0 \<le> (Day n - Day b) div 7" by simp
    then have q: "0 \<le> q" unfolding q_def using iv(2) by (simp add: pos_imp_zdiv_nonneg_iff)
    have c: "weeklyCandidate utc (Date b) (num i) (Date n)
        = dateOfTime (num (b + q * i * 7 * msPerDay))"
      unfolding q_def by (rule weeklyCandidate_num [OF vb n iv(2)])
    show ?thesis
    proof (cases "validTime (b + q * i * 7 * msPerDay) \<and> b + q * i * 7 * msPerDay \<le> n")
      case True
      then have "addWeeks utc (Date (b + q * i * 7 * msPerDay)) (num i) = Date r"
        using cf False unfolding bd c by (simp add: dateOfTime_num)
      then have "dateOfTime (num (b + (q + 1) * i * 7 * msPerDay)) = Date r"
        by (simp add: addWeeks_num algebra_simps)
      then have "validTime r \<and> r = b + (q + 1) * i * 7 * msPerDay"
        by (simp add: dateOfTime_num split: if_splits)
      moreover have "0 \<le> q + 1" using q by simp
      ultimately show ?thesis by blast
    next
      case False
      then have "dateOfTime (num (b + q * i * 7 * msPerDay)) = Date r"
        using cf \<open>\<not> n < b\<close> unfolding bd c by (auto simp: dateOfTime_num split: if_splits)
      then have "validTime r \<and> r = b + q * i * 7 * msPerDay"
        by (simp add: dateOfTime_num split: if_splits)
      then show ?thesis using q by blast
    qed
  qed
  show ?thesis using base bd vb grid by simp
qed

lemma weekly_base_weekday:
  assumes "0 \<le> w" "w \<le> 6"
  shows "WeekDay (a + (w - WeekDay a) mod 7 * msPerDay + j * i * 7 * msPerDay) = w"
proof -
  have "WeekDay (a + (w - WeekDay a) mod 7 * msPerDay + j * i * 7 * msPerDay)
      = (WeekDay a + ((w - WeekDay a) mod 7 + j * i * 7)) mod 7"
    using WeekDay_add_days [of a "(w - WeekDay a) mod 7 + j * i * 7"]
    by (simp add: algebra_simps)
  also have "\<dots> = (WeekDay a + (w - WeekDay a) mod 7) mod 7"
    by (simp add: add.assoc [symmetric])
  also have "\<dots> = (WeekDay a + (w - WeekDay a)) mod 7" by (rule mod_add_right_eq)
  also have "\<dots> = w" using assms by simp
  finally show ?thesis .
qed

section \<open>Months\<close>

lemma next_month_index:
  fixes k :: int
  shows "(k + 1) div 12 = (if k mod 12 = 11 then k div 12 + 1 else k div 12)"
    and "(k + 1) mod 12 = (if k mod 12 = 11 then 0 else k mod 12 + 1)"
proof -
  define q where "q = k div 12"
  define r where "r = k mod 12"
  have k: "k = 12 * q + r" and r: "0 \<le> r" "r < 12" by (simp_all add: q_def r_def)
  have "(k + 1) div 12 = (if r = 11 then q + 1 else q)
      \<and> (k + 1) mod 12 = (if r = 11 then 0 else r + 1)"
  proof (cases "r = 11")
    case True
    then have e: "k + 1 = 12 * (q + 1) + 0" using k by simp
    have "(k + 1) div 12 = q + 1" by (rule int_div_pos_eq [OF e]) simp_all
    moreover have "(k + 1) mod 12 = 0" by (rule int_mod_pos_eq [OF e]) simp_all
    ultimately show ?thesis using True by simp
  next
    case False
    then have rr: "0 \<le> r + 1" "r + 1 < 12" using r by simp_all
    have e: "k + 1 = 12 * q + (r + 1)" using k by simp
    have "(k + 1) div 12 = q" by (rule int_div_pos_eq [OF e rr])
    moreover have "(k + 1) mod 12 = r + 1" by (rule int_mod_pos_eq [OF e rr])
    ultimately show ?thesis using False by simp
  qed
  then show "(k + 1) div 12 = (if k mod 12 = 11 then k div 12 + 1 else k div 12)"
    and "(k + 1) mod 12 = (if k mod 12 = 11 then 0 else k mod 12 + 1)"
    unfolding q_def r_def by simp_all
qed

lemma month_cases:
  fixes m :: int
  assumes "0 \<le> m" "m \<le> 11"
  shows "m = 0 \<or> m = 1 \<or> m = 2 \<or> m = 3 \<or> m = 4 \<or> m = 5 \<or> m = 6 \<or> m = 7 \<or> m = 8
    \<or> m = 9 \<or> m = 10 \<or> m = 11"
  using assms by arith

text \<open>Every month has from 28 to 31 days.\<close>

lemma month_length:
  "firstOfMonth k + 28 \<le> firstOfMonth (k + 1)" "firstOfMonth (k + 1) \<le> firstOfMonth k + 31"
proof -
  define y where "y = k div 12"
  define m where "m = k mod 12"
  have m: "0 \<le> m" "m \<le> 11" unfolding m_def by simp_all
  have l: "leapYear y = 0 \<or> leapYear y = 1" by (rule leapYear_cases)
  have f: "firstOfMonth k = DayFromYear y + monthStart (leapYear y) m"
    unfolding firstOfMonth_def y_def m_def ..
  have f': "firstOfMonth (k + 1) =
      (if m = 11 then DayFromYear y + 365 + leapYear y
       else DayFromYear y + monthStart (leapYear y) (m + 1))"
    unfolding firstOfMonth_def next_month_index y_def [symmetric] m_def [symmetric]
    by (simp add: DayFromYear_Suc DaysInYear_leapYear monthStart_def)
  show "firstOfMonth k + 28 \<le> firstOfMonth (k + 1)"
    unfolding f f' using month_cases [OF m] l by (auto simp: monthStart_def)
  show "firstOfMonth (k + 1) \<le> firstOfMonth k + 31"
    unfolding f f' using month_cases [OF m] l by (auto simp: monthStart_def)
qed

lemma firstOfMonth_less: "k < k' \<Longrightarrow> firstOfMonth k + 28 \<le> firstOfMonth k'"
proof (induction k' rule: int_gr_induct)
  case base
  then show ?case by (rule month_length(1))
next
  case (step i)
  then show ?case using month_length(1) [of i] by simp
qed

lemma firstOfMonth_mono: "k \<le> k' \<Longrightarrow> firstOfMonth k \<le> firstOfMonth k'"
  using firstOfMonth_less [of k k'] by (cases "k = k'") auto

lemma firstOfMonth_in_year:
  "DayFromYear (k div 12) \<le> firstOfMonth k" "firstOfMonth (k + 1) \<le> DayFromYear (k div 12 + 1)"
proof -
  define y where "y = k div 12"
  define m where "m = k mod 12"
  have m: "0 \<le> m" "m \<le> 11" unfolding m_def by simp_all
  have l: "leapYear y = 0 \<or> leapYear y = 1" by (rule leapYear_cases)
  show "DayFromYear (k div 12) \<le> firstOfMonth k"
    unfolding firstOfMonth_def y_def [symmetric] m_def [symmetric]
    using month_cases [OF m] l by (auto simp: monthStart_def)
  show "firstOfMonth (k + 1) \<le> DayFromYear (k div 12 + 1)"
    unfolding firstOfMonth_def next_month_index y_def [symmetric] m_def [symmetric]
    using month_cases [OF m] l
    by (auto simp: DayFromYear_Suc DaysInYear_leapYear monthStart_def)
qed

text \<open>The calendar fields of a time value that lies in month \<open>k\<close>.\<close>

lemma fields_in_month:
  assumes "firstOfMonth k \<le> Day t" "Day t < firstOfMonth (k + 1)"
  shows "YearFromTime t = k div 12" "MonthFromTime t = k mod 12"
    "DateFromTime t = Day t - firstOfMonth k + 1"
proof -
  define y where "y = k div 12"
  define m where "m = k mod 12"
  have m: "0 \<le> m" "m \<le> 11" unfolding m_def by simp_all
  have l: "leapYear y = 0 \<or> leapYear y = 1" by (rule leapYear_cases)
  have "DayFromYear y \<le> Day t" "Day t < DayFromYear (y + 1)"
    using firstOfMonth_in_year [of k] assms unfolding y_def by simp_all
  then have yr: "YearFromTime t = y" unfolding YearFromTime_def by (rule YearFromDay_unique)
  define d where "d = Day t - DayFromYear y"
  have lo: "monthStart (leapYear y) m \<le> d"
    using assms(1) unfolding firstOfMonth_def y_def [symmetric] m_def [symmetric] d_def by simp
  have hi: "m \<noteq> 11 \<Longrightarrow> d < monthStart (leapYear y) (m + 1)"
    using assms(2)
    unfolding firstOfMonth_def next_month_index y_def [symmetric] m_def [symmetric] d_def
    by simp
  have dwy: "DayWithinYear t = d" unfolding DayWithinYear_def yr d_def ..
  have il: "InLeapYear t = leapYear y" unfolding InLeapYear_def yr ..
  have mo: "MonthFromTime t = m"
    unfolding MonthFromTime_def dwy il Let_def
    using month_cases [OF m] l lo hi by (auto simp: monthStart_def)
  show "YearFromTime t = k div 12" using yr unfolding y_def .
  show "MonthFromTime t = k mod 12" using mo unfolding m_def .
  show "DateFromTime t = Day t - firstOfMonth k + 1"
    unfolding DateFromTime_def dwy il mo firstOfMonth_def y_def [symmetric] m_def [symmetric]
      d_def by simp
qed

lemma monthIndex_bounds:
  "firstOfMonth (monthIndex t) \<le> Day t" "Day t < firstOfMonth (monthIndex t + 1)"
proof -
  show lo: "firstOfMonth (monthIndex t) \<le> Day t"
    unfolding monthIndex_def firstOfMonth_own using DateFromTime_bounds(1) [of t] by simp
  define y where "y = YearFromTime t"
  define m where "m = MonthFromTime t"
  have m: "0 \<le> m" "m \<le> 11" unfolding m_def by (rule MonthFromTime_range)+
  have l: "leapYear y = 0 \<or> leapYear y = 1" by (rule leapYear_cases)
  have dm: "(12 * y + m) div 12 = y" "(12 * y + m) mod 12 = m" using m by simp_all
  have yb: "Day t < DayFromYear (y + 1)"
    unfolding y_def YearFromTime_def by (rule YearFromDay_bounds(2))
  have mdef: "m = (let d = DayWithinYear t; l = leapYear y
      in if d < 31 then 0 else if d < 59 + l then 1 else if d < 90 + l then 2
         else if d < 120 + l then 3 else if d < 151 + l then 4
         else if d < 181 + l then 5 else if d < 212 + l then 6
         else if d < 243 + l then 7 else if d < 273 + l then 8
         else if d < 304 + l then 9 else if d < 334 + l then 10 else 11)"
    unfolding m_def MonthFromTime_def InLeapYear_def y_def ..
  have "m \<noteq> 11 \<Longrightarrow> DayWithinYear t < monthStart (leapYear y) (m + 1)"
    using mdef l by (auto simp: Let_def monthStart_def split: if_splits)
  then have "m \<noteq> 11 \<Longrightarrow> Day t < DayFromYear y + monthStart (leapYear y) (m + 1)"
    unfolding DayWithinYear_def y_def by simp
  then show "Day t < firstOfMonth (monthIndex t + 1)"
    unfolding monthIndex_def firstOfMonth_def next_month_index y_def [symmetric]
      m_def [symmetric] dm
    using yb by (auto simp: monthStart_def)
qed

lemma monthIndex_mono:
  assumes "t \<le> u"
  shows "monthIndex t \<le> monthIndex u"
proof (rule ccontr)
  assume "\<not> monthIndex t \<le> monthIndex u"
  then have "monthIndex u + 1 \<le> monthIndex t" by simp
  then have "firstOfMonth (monthIndex u + 1) \<le> firstOfMonth (monthIndex t)"
    by (rule firstOfMonth_mono)
  then have "Day u < Day t"
    using monthIndex_bounds(2) [of u] monthIndex_bounds(1) [of t] by simp
  then show False using Day_mono [OF assms] by simp
qed

section \<open>The monthly resolver\<close>

lemma MakeDay_num:
  "MakeDay (num y) (num m) (num d) = num (firstOfMonth (12 * y + m) + d - 1)"
  using firstOfMonth_MakeDay [of y m "of_int d"] by (simp add: num_def [of d])

lemma newDate_num:
  assumes "\<not> (0 \<le> y \<and> y \<le> 99)"
  shows "newDate utc (num y) (num m) (num d)
     = dateOfTime (num ((firstOfMonth (12 * y + m) + d - 1) * msPerDay))"
proof -
  have "(case num y of
           Fin y' \<Rightarrow> (if 0 \<le> toInteger y' \<and> toInteger y' \<le> 99
                      then num (1900 + toInteger y') else Fin y')
         | other \<Rightarrow> other) = num y"
    using assms by (auto simp: num_def [of y])
  then have "newDate utc (num y) (num m) (num d)
      = dateOfTime (UTC utc (MakeDate (MakeDay (num y) (num m) (num d))
          (MakeTime (num 0) (num 0) (num 0) (num 0))))"
    unfolding newDate_def Let_def by (simp only:)
  then show ?thesis by (simp add: MakeDay_num)
qed

lemma newDate_NaN [simp]: "newDate utc NaN m d = InvalidDate"
  by (simp add: newDate_def MakeDay_def)

lemma firstOfMonth_lower:
  assumes "1200 \<le> k"
  shows "- maxTime \<le> firstOfMonth k * msPerDay"
proof -
  have "100 \<le> k div 12" using assms by simp
  then have "DayFromYear 100 \<le> DayFromYear (k div 12)" by (rule DayFromYear_mono)
  moreover have "DayFromYear 100 = - 683003" by (simp add: DayFromYear_def)
  ultimately have "- 683003 \<le> firstOfMonth k" using firstOfMonth_in_year(1) [of k] by simp
  then show ?thesis by (simp add: msPerDay_def maxTime_def)
qed

lemma firstOfMonthDate_fields:
  assumes "validTime (firstOfMonth k * msPerDay)"
  shows "firstOfMonthDate k = Date (firstOfMonth k * msPerDay)"
    and "getFullYear utc (firstOfMonthDate k) = num (k div 12)"
    and "getMonth utc (firstOfMonthDate k) = num (k mod 12)"
    and "getDate utc (firstOfMonthDate k) = num 1"
    and "getDay utc (firstOfMonthDate k) = num ((firstOfMonth k + 4) mod 7)"
proof -
  show d: "firstOfMonthDate k = Date (firstOfMonth k * msPerDay)"
    using assms by (simp add: firstOfMonthDate_def dateOfTime_num)
  have "firstOfMonth k \<le> Day (firstOfMonth k * msPerDay)"
      "Day (firstOfMonth k * msPerDay) < firstOfMonth (k + 1)"
    using month_length(1) [of k] by simp_all
  note f = fields_in_month [OF this]
  show "getFullYear utc (firstOfMonthDate k) = num (k div 12)" unfolding d by (simp add: f)
  show "getMonth utc (firstOfMonthDate k) = num (k mod 12)" unfolding d by (simp add: f)
  show "getDate utc (firstOfMonthDate k) = num 1" unfolding d by (simp add: f)
  show "getDay utc (firstOfMonthDate k) = num ((firstOfMonth k + 4) mod 7)"
    unfolding d by (simp add: WeekDay_def)
qed

lemma firstOfMonthDate_invalid:
  assumes "1200 \<le> k" "\<not> validTime (firstOfMonth k * msPerDay)"
  shows "firstOfMonthDate k = InvalidDate" "maxTime < firstOfMonth k * msPerDay"
    "firstOfMonthDate (k + 1) = InvalidDate"
proof -
  show "firstOfMonthDate k = InvalidDate"
    using assms(2) by (simp add: firstOfMonthDate_def dateOfTime_num)
  show hi: "maxTime < firstOfMonth k * msPerDay"
    using firstOfMonth_lower [OF assms(1)] assms(2) by (simp add: validTime_def)
  have "firstOfMonth k * msPerDay \<le> firstOfMonth (k + 1) * msPerDay"
    using month_length(1) [of k] by (simp add: msPerDay_def)
  then have "\<not> validTime (firstOfMonth (k + 1) * msPerDay)"
    using hi by (simp add: validTime_def)
  then show "firstOfMonthDate (k + 1) = InvalidDate"
    by (simp add: firstOfMonthDate_def dateOfTime_num)
qed

lemma addMonths_firstOfMonthDate:
  assumes "1200 \<le> k"
  shows "addMonths utc (firstOfMonthDate k) (num 1) = firstOfMonthDate (k + 1)"
proof (cases "validTime (firstOfMonth k * msPerDay)")
  case False
  note i = firstOfMonthDate_invalid [OF assms False]
  show ?thesis unfolding i by (simp add: addMonths_def Let_def)
next
  case True
  note f = firstOfMonthDate_fields [OF True]
  have k: "12 * (k div 12) + (k mod 12 + 1) = k + 1" by simp
  have tw: "TimeWithinDay (firstOfMonth k * msPerDay) = 0"
    by (simp add: TimeWithinDay_def msPerDay_def)
  have "firstOfMonth k \<le> Day (firstOfMonth k * msPerDay)"
      "Day (firstOfMonth k * msPerDay) < firstOfMonth (k + 1)"
    using month_length(1) [of k] by simp_all
  note g = fields_in_month [OF this]
  have x: "setMonth utc (firstOfMonthDate k) (jadd (getMonth utc (firstOfMonthDate k)) (num 1))
      = firstOfMonthDate (k + 1)"
    unfolding f(3) unfolding f(1)
    by (simp add: g MakeDay_num k tw firstOfMonthDate_def)
  show ?thesis
  proof (cases "validTime (firstOfMonth (k + 1) * msPerDay)")
    case True
    show ?thesis
      unfolding addMonths_def Let_def x
      by (simp add: f(4) firstOfMonthDate_fields(4) [OF True])
  next
    case False
    then have "firstOfMonthDate (k + 1) = InvalidDate"
      by (simp add: firstOfMonthDate_def dateOfTime_num)
    then show ?thesis unfolding addMonths_def Let_def x by simp
  qed
qed

lemma nthWeekdayOfMonth_month:
  assumes "1200 \<le> k" "validTime (firstOfMonth k * msPerDay)" "0 \<le> w" "w \<le> 6"
  shows "nthWeekdayOfMonth utc (num (k div 12)) (num (k mod 12)) (num w) (num wom)
     = dateOfTime (num (occurrenceDay k w wom * msPerDay))"
proof -
  have "100 \<le> k div 12" using assms(1) by simp
  then have y: "\<not> (0 \<le> k div 12 \<and> k div 12 \<le> 99)" by simp
  have k: "12 * (k div 12) + k mod 12 = k" by simp
  have first: "newDate utc (num (k div 12)) (num (k mod 12)) (num 1) = firstOfMonthDate k"
    unfolding newDate_num [OF y] k by (simp add: firstOfMonthDate_def)
  define g where "g = (firstOfMonth k + 4) mod 7"
  have g: "0 \<le> g" "g \<le> 6" unfolding g_def by simp_all
  have "0 \<le> w - g + 7" using assms(3) g by simp
  then have "jmod (num (w - g + 7)) (num 7) = num ((w - g + 7) mod 7)"
    by (intro mod_num) simp_all
  moreover have "(w - g + 7) mod 7 = (w - (firstOfMonth k + 4)) mod 7"
    unfolding g_def by (simp add: mod_diff_right_eq)
  ultimately have offset:
    "jmod (jadd (jsub (num w) (getDay utc (firstOfMonthDate k))) (num 7)) (num 7)
       = num ((w - (firstOfMonth k + 4)) mod 7)"
    unfolding firstOfMonthDate_fields(5) [OF assms(2)] g_def [symmetric] by simp
  have "firstOfMonth k + (1 + (w - (firstOfMonth k + 4)) mod 7 + (wom - 1) * 7) - 1
      = occurrenceDay k w wom"
    by (simp add: occurrenceDay_def)
  then show ?thesis
    unfolding nthWeekdayOfMonth_def Let_def first offset
    by (simp add: newDate_num [OF y] k)
qed

lemma occurrenceDay_lower: "1 \<le> wom \<Longrightarrow> firstOfMonth k \<le> occurrenceDay k w wom"
proof -
  assume "1 \<le> wom"
  define off where "off = (w - (firstOfMonth k + 4)) mod 7"
  have "0 \<le> off" unfolding off_def by simp
  then have "firstOfMonth k \<le> firstOfMonth k + off + 7 * (wom - 1)"
    using \<open>1 \<le> wom\<close> by simp
  then show ?thesis unfolding occurrenceDay_def off_def .
qed

text \<open>The occurrence that one iteration of the monthly loop computes for the month of its cursor.\<close>

lemma monthly_occurrence_of_cursor:
  assumes "1200 \<le> k" "0 \<le> w" "w \<le> 6" "1 \<le> wom"
  shows "setTimeFromAnchor utc
       (nthWeekdayOfMonth utc (getFullYear utc (firstOfMonthDate k)) (getMonth utc (firstOfMonthDate k))
          (num w) (num wom)) (Date a)
     = dateOfTime (num (monthlyOccurrence k w wom a))"
proof -
  have lo: "firstOfMonth k * msPerDay \<le> occurrenceDay k w wom * msPerDay"
    using occurrenceDay_lower [OF assms(4), of k w] by (simp add: msPerDay_def)
  have le: "occurrenceDay k w wom * msPerDay \<le> monthlyOccurrence k w wom a"
    unfolding monthlyOccurrence_def using TimeWithinDay_range(1) [of a] by simp
  show ?thesis
  proof (cases "validTime (firstOfMonth k * msPerDay)")
    case False
    note i = firstOfMonthDate_invalid [OF assms(1) False]
    have "\<not> validTime (monthlyOccurrence k w wom a)"
      using i(2) lo le by (simp add: validTime_def)
    then show ?thesis unfolding i(1) by (simp add: nthWeekdayOfMonth_def Let_def dateOfTime_num)
  next
    case True
    note f = firstOfMonthDate_fields [OF True]
    have n: "nthWeekdayOfMonth utc (getFullYear utc (firstOfMonthDate k)) (getMonth utc (firstOfMonthDate k))
          (num w) (num wom) = dateOfTime (num (occurrenceDay k w wom * msPerDay))"
      unfolding f(2,3) by (rule nthWeekdayOfMonth_month [OF assms(1) True assms(2,3)])
    show ?thesis
    proof (cases "validTime (occurrenceDay k w wom * msPerDay)")
      case True
      then show ?thesis
        unfolding n by (simp add: dateOfTime_num setTimeFromAnchor_Date monthlyOccurrence_def)
    next
      case False
      have "- maxTime \<le> occurrenceDay k w wom * msPerDay"
        using firstOfMonth_lower [OF assms(1)] lo by simp
      then have "maxTime < occurrenceDay k w wom * msPerDay"
        using False by (simp add: validTime_def)
      then have "\<not> validTime (monthlyOccurrence k w wom a)"
        using le by (simp add: validTime_def)
      then show ?thesis unfolding n using False by (simp add: dateOfTime_num)
    qed
  qed
qed

text \<open>The loop of the monthly resolver carries out the search on month indices.\<close>

lemma monthlyScan_searchMonths:
  assumes "1200 \<le> k" "0 \<le> w" "w \<le> 6" "1 \<le> wom"
  shows "monthlyScan utc m (firstOfMonthDate k) (num w) (num wom) (Date a) (Date n)
     = (case searchMonths m k w wom a n of None \<Rightarrow> IsNull | Some t \<Rightarrow> IsDate (Date t))"
  using assms(1)
proof (induction m arbitrary: k)
  case 0
  show ?case by simp
next
  case (Suc m)
  define t where "t = monthlyOccurrence k w wom a"
  have occ: "setTimeFromAnchor utc
       (nthWeekdayOfMonth utc (getFullYear utc (firstOfMonthDate k)) (getMonth utc (firstOfMonthDate k))
          (num w) (num wom)) (Date a) = dateOfTime (num t)"
    unfolding t_def by (rule monthly_occurrence_of_cursor [OF Suc.prems assms(2,3,4)])
  have "1200 \<le> k + 1" using Suc.prems by simp
  note IH = Suc.IH [OF this]
  note nx = addMonths_firstOfMonthDate [OF Suc.prems]
  show ?case
  proof (cases "acceptable a n t")
    case True
    then show ?thesis
      unfolding monthlyScan.simps Let_def occ searchMonths.simps t_def [symmetric]
      by (simp add: acceptable_def dateOfTime_num)
  next
    case False
    then have "monthlyScan utc (Suc m) (firstOfMonthDate k) (num w) (num wom) (Date a) (Date n)
        = monthlyScan utc m (firstOfMonthDate (k + 1)) (num w) (num wom) (Date a) (Date n)"
      unfolding monthlyScan.simps Let_def occ nx
      by (auto simp: acceptable_def dateOfTime_num)
    then show ?thesis
      using False unfolding IH searchMonths.simps t_def [symmetric] by simp
  qed
qed

lemma nextMonthlyOccurrence_search:
  assumes "validTime n" "100 \<le> YearFromTime n"
    and "ToNumber h weekday = Inr (num w)" "0 \<le> w" "w \<le> 6"
    and "ToNumber h weekOfMonth = Inr (num wom)" "1 \<le> wom" "wom \<le> 5"
  shows "nextMonthlyOccurrence utc h (IsDate (Date a)) weekday weekOfMonth (Date n)
     = Inr (case searchMonths 24 (monthIndex n) w wom a n of
              None \<Rightarrow> IsNull | Some t \<Rightarrow> IsDate (Date t))"
proof -
  have y: "\<not> (0 \<le> YearFromTime n \<and> YearFromTime n \<le> 99)" using assms(2) by simp
  have "0 \<le> MonthFromTime n" by (rule MonthFromTime_range)
  then have k: "1200 \<le> monthIndex n" unfolding monthIndex_def using assms(2) by simp
  have cursor: "newDate utc (getFullYear utc (Date n)) (getMonth utc (Date n)) (num 1)
      = firstOfMonthDate (monthIndex n)"
    by (simp add: newDate_num [OF y] firstOfMonthDate_def monthIndex_def)
  show ?thesis
    unfolding nextMonthlyOccurrence_def Let_def assms(3,6) cursor
    using assms(4,5,7,8) monthlyScan_searchMonths [OF k assms(4,5,7)]
    by simp
qed

section \<open>The search on month indices\<close>

lemma monthlyOccurrence_less:
  assumes "k < k'"
  shows "monthlyOccurrence k w wom a < monthlyOccurrence k' w wom a"
proof -
  define off where "off = (w - (firstOfMonth k + 4)) mod 7"
  define off' where "off' = (w - (firstOfMonth k' + 4)) mod 7"
  have "off \<le> 6" "0 \<le> off'" unfolding off_def off'_def by simp_all
  then have "firstOfMonth k + off + 7 * (wom - 1) < firstOfMonth k' + off' + 7 * (wom - 1)"
    using firstOfMonth_less [OF assms] by simp
  then have "occurrenceDay k w wom < occurrenceDay k' w wom"
    unfolding occurrenceDay_def off_def off'_def .
  then show ?thesis unfolding monthlyOccurrence_def by (simp add: msPerDay_def)
qed

lemma monthlyOccurrence_mono:
  "k \<le> k' \<Longrightarrow> monthlyOccurrence k w wom a \<le> monthlyOccurrence k' w wom a"
  using monthlyOccurrence_less [of k k' w wom a] by (cases "k = k'") auto

lemma searchMonths_Some:
  assumes "searchMonths m k w wom a n = Some t"
  shows "\<exists>j. 0 \<le> j \<and> j < int m \<and> t = monthlyOccurrence (k + j) w wom a \<and> acceptable a n t
     \<and> (\<forall>j'. 0 \<le> j' \<and> j' < j \<longrightarrow> \<not> acceptable a n (monthlyOccurrence (k + j') w wom a))"
  using assms
proof (induction m arbitrary: k)
  case 0
  then show ?case by simp
next
  case (Suc m)
  show ?case
  proof (cases "acceptable a n (monthlyOccurrence k w wom a)")
    case True
    then have "t = monthlyOccurrence (k + 0) w wom a" using Suc.prems by simp
    then show ?thesis using True by (intro exI [of _ 0]) auto
  next
    case False
    then have "searchMonths m (k + 1) w wom a n = Some t" using Suc.prems by simp
    from Suc.IH [OF this] obtain j
      where j: "0 \<le> j" "j < int m" "t = monthlyOccurrence (k + 1 + j) w wom a"
        "acceptable a n t"
        "\<forall>j'. 0 \<le> j' \<and> j' < j \<longrightarrow> \<not> acceptable a n (monthlyOccurrence (k + 1 + j') w wom a)"
      by blast
    have "\<not> acceptable a n (monthlyOccurrence (k + j') w wom a)" if "0 \<le> j'" "j' < j + 1" for j'
    proof (cases "j' = 0")
      case True
      then show ?thesis using False by simp
    next
      case nz: False
      then have "0 \<le> j' - 1 \<and> j' - 1 < j" using that by simp
      then have "\<not> acceptable a n (monthlyOccurrence (k + 1 + (j' - 1)) w wom a)"
        using j(5) by blast
      then show ?thesis by simp
    qed
    moreover have "k + 1 + j = k + (j + 1)" by simp
    then have "t = monthlyOccurrence (k + (j + 1)) w wom a" using j(3) by (simp only:)
    moreover have "0 \<le> j + 1" "j + 1 < int (Suc m)" using j(1,2) by simp_all
    ultimately show ?thesis using j(4) by (intro exI [of _ "j + 1"]) blast
  qed
qed

lemma searchMonths_None:
  "searchMonths m k w wom a n = None \<longleftrightarrow>
     (\<forall>j. 0 \<le> j \<and> j < int m \<longrightarrow> \<not> acceptable a n (monthlyOccurrence (k + j) w wom a))"
proof (induction m arbitrary: k)
  case 0
  show ?case by auto
next
  case (Suc m)
  show ?case
  proof (cases "acceptable a n (monthlyOccurrence k w wom a)")
    case True
    then have "\<not> (\<forall>j. 0 \<le> j \<and> j < int (Suc m)
        \<longrightarrow> \<not> acceptable a n (monthlyOccurrence (k + j) w wom a))"
      by (auto intro: exI [of _ 0])
    then show ?thesis using True by simp
  next
    case False
    have "(\<forall>j. 0 \<le> j \<and> j < int m \<longrightarrow> \<not> acceptable a n (monthlyOccurrence (k + 1 + j) w wom a))
      \<longleftrightarrow> (\<forall>j. 0 \<le> j \<and> j < int (Suc m) \<longrightarrow> \<not> acceptable a n (monthlyOccurrence (k + j) w wom a))"
    proof
      assume h: "\<forall>j. 0 \<le> j \<and> j < int m \<longrightarrow> \<not> acceptable a n (monthlyOccurrence (k + 1 + j) w wom a)"
      show "\<forall>j. 0 \<le> j \<and> j < int (Suc m) \<longrightarrow> \<not> acceptable a n (monthlyOccurrence (k + j) w wom a)"
      proof (intro allI impI)
        fix j assume j: "0 \<le> j \<and> j < int (Suc m)"
        show "\<not> acceptable a n (monthlyOccurrence (k + j) w wom a)"
        proof (cases "j = 0")
          case True
          then show ?thesis using False by simp
        next
          case nz: False
          then have "0 \<le> j - 1 \<and> j - 1 < int m" using j by simp
          then have "\<not> acceptable a n (monthlyOccurrence (k + 1 + (j - 1)) w wom a)"
            using h by blast
          then show ?thesis by simp
        qed
      qed
    next
      assume h: "\<forall>j. 0 \<le> j \<and> j < int (Suc m) \<longrightarrow> \<not> acceptable a n (monthlyOccurrence (k + j) w wom a)"
      show "\<forall>j. 0 \<le> j \<and> j < int m \<longrightarrow> \<not> acceptable a n (monthlyOccurrence (k + 1 + j) w wom a)"
      proof (intro allI impI)
        fix j assume j: "0 \<le> j \<and> j < int m"
        then have "0 \<le> j + 1 \<and> j + 1 < int (Suc m)" by simp
        then have x: "\<not> acceptable a n (monthlyOccurrence (k + (j + 1)) w wom a)"
          using h by blast
        have e: "k + (j + 1) = k + 1 + j" by simp
        show "\<not> acceptable a n (monthlyOccurrence (k + 1 + j) w wom a)"
          using x unfolding e .
      qed
    qed
    then show ?thesis using False Suc.IH [of "k + 1"] by simp
  qed
qed

text \<open>A later ``now'' never makes the search return an earlier occurrence.\<close>

lemma searchMonths_monotone:
  assumes "n1 \<le> n2" "k1 \<le> k2"
    and r1: "searchMonths m k1 w wom a n1 = Some t1"
    and r2: "searchMonths m k2 w wom a n2 = Some t2"
  shows "t1 \<le> t2"
proof -
  obtain j1 where j1: "0 \<le> j1" "j1 < int m" "t1 = monthlyOccurrence (k1 + j1) w wom a"
      "\<forall>j'. 0 \<le> j' \<and> j' < j1 \<longrightarrow> \<not> acceptable a n1 (monthlyOccurrence (k1 + j') w wom a)"
    using searchMonths_Some [OF r1] by blast
  obtain j2 where j2: "0 \<le> j2" "t2 = monthlyOccurrence (k2 + j2) w wom a" "acceptable a n2 t2"
    using searchMonths_Some [OF r2] by blast
  have acc: "acceptable a n1 t2" using j2(3) assms(1) by (simp add: acceptable_def)
  show ?thesis
  proof (rule ccontr)
    assume "\<not> t1 \<le> t2"
    then have lt: "monthlyOccurrence (k2 + j2) w wom a < monthlyOccurrence (k1 + j1) w wom a"
      unfolding j1(3) j2(2) by simp
    have "k2 + j2 < k1 + j1"
    proof (rule ccontr)
      assume "\<not> k2 + j2 < k1 + j1"
      then have "k1 + j1 \<le> k2 + j2" by simp
      from monthlyOccurrence_mono [OF this, of w wom a] lt show False by simp
    qed
    then have "0 \<le> k2 + j2 - k1 \<and> k2 + j2 - k1 < j1" using assms(2) j2(1) by simp
    then have "\<not> acceptable a n1 (monthlyOccurrence (k1 + (k2 + j2 - k1)) w wom a)"
      using j1(4) by blast
    moreover have "k1 + (k2 + j2 - k1) = k2 + j2" by simp
    ultimately show False using acc unfolding j2(2) by simp
  qed
qed

lemma searchMonths_before_anchor:
  assumes "monthlyOccurrence (k + int m - 1) w wom a < a"
  shows "searchMonths m k w wom a n = None"
  unfolding searchMonths_None
proof (intro allI impI)
  fix j assume "0 \<le> j \<and> j < int m"
  then have "k + j \<le> k + int m - 1" by simp
  from monthlyOccurrence_mono [OF this, of w wom a] assms
  show "\<not> acceptable a n (monthlyOccurrence (k + j) w wom a)" by (simp add: acceptable_def)
qed

text \<open>The raw fifth occurrence of a weekday lies in its month or in the next one.\<close>

lemma fifth_occurrence_month:
  assumes "firstOfMonth (k + 1) \<le> occurrenceDay k w 5"
  shows "monthIndex (monthlyOccurrence k w 5 a) = k + 1"
proof -
  define t where "t = monthlyOccurrence k w 5 a"
  define off where "off = (w - (firstOfMonth k + 4)) mod 7"
  have off: "off \<le> 6" unfolding off_def by simp
  have od: "occurrenceDay k w 5 = firstOfMonth k + off + 28"
    unfolding occurrenceDay_def off_def by simp
  have tr: "0 \<le> TimeWithinDay a" "TimeWithinDay a < msPerDay" by (rule TimeWithinDay_range)+
  have "Day t = occurrenceDay k w 5"
  proof -
    have "t = msPerDay * occurrenceDay k w 5 + TimeWithinDay a"
      unfolding t_def monthlyOccurrence_def by simp
    then show ?thesis
      unfolding Day_def using tr by (intro int_div_pos_eq) (simp_all add: msPerDay_def)
  qed
  then have d: "firstOfMonth (k + 1) \<le> Day t" "Day t < firstOfMonth (k + 1 + 1)"
    using assms od off month_length(1) [of k] month_length(1) [of "k + 1"] by simp_all
  have "monthIndex t = 12 * ((k + 1) div 12) + (k + 1) mod 12"
    unfolding monthIndex_def fields_in_month(1,2) [OF d] ..
  then show ?thesis unfolding t_def by simp
qed

section \<open>The weekly resolver returns the first occurrence after ``now''\<close>

lemma weekly_cases:
  assumes a: "validTime a" and n: "validTime n"
    and iv: "ToNumber h (nullish interval (JNum (num 1))) = Inr (num i)" "1 \<le> i"
    and wd: "ToNumber h weekday = Inr (num w)" "0 \<le> w" "w \<le> 6"
    and ret: "nextWeeklyOccurrence utc h (IsDate (Date a)) interval weekday (Date n)
       = Some (Inr (IsDate (Date r)))"
  defines "b \<equiv> a + (w - WeekDay a) mod 7 * msPerDay"
  defines "c \<equiv> b + (Day n - Day b) div 7 div i * i * 7 * msPerDay"
  shows "(n < b \<and> r = b) \<or> (b \<le> n \<and> n < c \<and> r = c)
     \<or> (b \<le> n \<and> c \<le> n \<and> r = c + i * 7 * msPerDay)"
proof -
  have base: "weeklyBase utc (Date a) (num w) = dateOfTime (num b)"
    unfolding b_def by (rule weeklyBase_num [OF a wd(2,3)])
  note cf = weekly_closed_form(1) [OF a n iv wd, unfolded ret base]
  have vb: "validTime b" and bd: "weeklyBase utc (Date a) (num w) = Date b"
    using weekly_on_grid [OF a n iv wd ret] unfolding b_def by simp_all
  then have bd': "dateOfTime (num b) = Date b" unfolding base by simp
  show ?thesis
  proof (cases "n < b")
    case True
    then have "r = b" using cf unfolding bd' by simp
    then show ?thesis using True by simp
  next
    case False
    then have le: "b \<le> n" by simp
    have cand: "weeklyCandidate utc (Date b) (num i) (Date n) = dateOfTime (num c)"
      unfolding c_def by (rule weeklyCandidate_num [OF vb n iv(2)])
    show ?thesis
    proof (cases "validTime c \<and> c \<le> n")
      case True
      then have "addWeeks utc (Date c) (num i) = Date r"
        using cf False unfolding bd' cand by (simp add: dateOfTime_num)
      then have "dateOfTime (num (c + i * 7 * msPerDay)) = Date r" by (simp add: addWeeks_num)
      then have "r = c + i * 7 * msPerDay" by (simp add: dateOfTime_num split: if_splits)
      then show ?thesis using le True by simp
    next
      case nc: False
      then have "dateOfTime (num c) = Date r"
        using cf False unfolding bd' cand by (auto simp: dateOfTime_num split: if_splits)
      then have "validTime c \<and> r = c" by (simp add: dateOfTime_num split: if_splits)
      then show ?thesis using le nc by auto
    qed
  qed
qed

lemma weekly_minimal:
  assumes a: "validTime a" and n: "validTime n"
    and iv: "ToNumber h (nullish interval (JNum (num 1))) = Inr (num i)" "1 \<le> i"
    and wd: "ToNumber h weekday = Inr (num w)" "0 \<le> w" "w \<le> 6"
    and ret: "nextWeeklyOccurrence utc h (IsDate (Date a)) interval weekday (Date n)
       = Some (Inr (IsDate (Date r)))"
    and g: "0 \<le> j" "n < a + (w - WeekDay a) mod 7 * msPerDay + j * i * 7 * msPerDay"
  shows "r \<le> a + (w - WeekDay a) mod 7 * msPerDay + j * i * 7 * msPerDay"
proof -
  define b where "b = a + (w - WeekDay a) mod 7 * msPerDay"
  define W where "W = (Day n - Day b) div 7"
  define q where "q = W div i"
  define c where "c = b + q * i * 7 * msPerDay"
  define J where "J = j * i"
  define Q where "Q = q * i"
  have J: "0 \<le> J" unfolding J_def using g(1) iv(2) by simp
  have gJ: "b + j * i * 7 * msPerDay = b + J * 604800000"
    unfolding J_def by (simp add: msPerDay_def)
  have cQ: "c = b + Q * 604800000" unfolding c_def Q_def by (simp add: msPerDay_def)
  have step: "c + i * 7 * msPerDay = b + (Q + i) * 604800000"
    unfolding cQ by (simp add: msPerDay_def algebra_simps)
  have nJ: "n < b + J * 604800000" using g(2) unfolding b_def [symmetric] gJ .
  note cases = weekly_cases [OF a n iv wd ret, folded b_def, folded W_def, folded q_def,
      folded c_def]
  have QW: "Q \<le> W"
  proof -
    have "i * q + W mod i = W" unfolding q_def by (rule mult_div_mod_eq)
    moreover have "0 \<le> W mod i" using iv(2) by simp
    ultimately show ?thesis unfolding Q_def by (simp add: mult.commute)
  qed
  have less_iff: "J < Q \<longleftrightarrow> j < q" unfolding J_def Q_def using iv(2) by simp
  have "r \<le> b + J * 604800000"
    using cases
  proof (elim disjE conjE)
    assume "r = b"
    then show ?thesis using J by simp
  next
    assume "b \<le> n" "n < c" "r = c"
    show ?thesis
    proof (rule ccontr)
      assume "\<not> r \<le> b + J * 604800000"
      then have "J < Q" unfolding \<open>r = c\<close> cQ by simp
      then have "j + 1 \<le> q" using less_iff by simp
      then have "(j + 1) * i \<le> q * i" using iv(2) by (intro mult_right_mono) simp_all
      then have "J + i \<le> Q" unfolding J_def Q_def by (simp add: algebra_simps)
      then have JW: "J + 1 \<le> W" using QW iv(2) by simp
      have "7 * W \<le> Day n - Day b"
      proof -
        have "7 * W + (Day n - Day b) mod 7 = Day n - Day b"
          unfolding W_def by (rule mult_div_mod_eq)
        moreover have "0 \<le> (Day n - Day b) mod 7" by simp
        ultimately show ?thesis by simp
      qed
      then have "Day b + 7 * J < Day n" using JW by simp
      moreover have "Day (b + J * 604800000) = Day b + 7 * J"
      proof -
        have "J * 604800000 = 7 * J * msPerDay" by (simp add: msPerDay_def)
        then show ?thesis by (simp only: Day_add_days)
      qed
      ultimately have "Day (b + J * 604800000) < Day n" by simp
      then have "\<not> n \<le> b + J * 604800000" using Day_mono by fastforce
      then show False using nJ by simp
    qed
  next
    assume "b \<le> n" "c \<le> n" "r = c + i * 7 * msPerDay"
    show ?thesis
    proof (rule ccontr)
      assume "\<not> r \<le> b + J * 604800000"
      then have "J < Q + i" unfolding \<open>r = c + i * 7 * msPerDay\<close> step by simp
      then have "j * i < (q + 1) * i" unfolding J_def Q_def by (simp add: algebra_simps)
      then have "j < q + 1" using iv(2) by simp
      then have "j \<le> q" by simp
      then have "j * i \<le> q * i" using iv(2) by (intro mult_right_mono) simp_all
      then have "b + J * 604800000 \<le> c" unfolding cQ J_def Q_def by simp
      then show False using \<open>c \<le> n\<close> nJ by simp
    qed
  qed
  then show ?thesis unfolding b_def [symmetric] gJ .
qed

lemma weekly_monotone:
  assumes a: "validTime a" and n1: "validTime n1" and n2: "validTime n2" and le: "n1 \<le> n2"
    and iv: "ToNumber h (nullish interval (JNum (num 1))) = Inr (num i)" "1 \<le> i"
    and wd: "ToNumber h weekday = Inr (num w)" "0 \<le> w" "w \<le> 6"
    and r1: "nextWeeklyOccurrence utc h (IsDate (Date a)) interval weekday (Date n1)
       = Some (Inr (IsDate (Date r1)))"
    and r2: "nextWeeklyOccurrence utc h (IsDate (Date a)) interval weekday (Date n2)
       = Some (Inr (IsDate (Date r2)))"
  shows "r1 \<le> r2"
proof -
  from weekly_on_grid [OF a n2 iv wd r2] obtain j
    where j: "0 \<le> j" "r2 = a + (w - WeekDay a) mod 7 * msPerDay + j * i * 7 * msPerDay"
    by blast
  have "n2 < r2" using weekly_result [OF a n2 r2] by blast
  then have "n1 < a + (w - WeekDay a) mod 7 * msPerDay + j * i * 7 * msPerDay"
    using le unfolding j(2) by simp
  from weekly_minimal [OF a n1 iv wd r1 j(1) this] show ?thesis unfolding j(2) .
qed

lemma weekly_returns:
  assumes "ToNumber h (nullish interval (JNum (num 1))) = Inr (Fin i)" "1 \<le> i"
    and "ToNumber h weekday = Inr (Fin w)" "0 \<le> w" "w \<le> 6"
  shows "\<exists>d. nextWeeklyOccurrence utc h (IsDate anchor) interval weekday now = Some (Inr (IsDate d))"
proof -
  obtain d where "weeklyCatchUp utc (weeklyCandidate utc (weeklyBase utc anchor (Fin w)) (Fin i) now)
      (Fin i) now = Some d"
    using weeklyCatchUp_terminates [OF assms(2)] by blast
  then show ?thesis
    unfolding nextWeeklyOccurrence_valid [OF assms] Let_def by simp
qed

text \<open>
  The weekly resolver returns an instant when neither the first occurrence nor one step
  past ``now'' leaves the range of Date.
\<close>

lemma weekly_returns_instant:
  assumes a: "validTime a" and n: "validTime n"
    and iv: "ToNumber h (nullish interval (JNum (num 1))) = Inr (num i)" "1 \<le> i"
    and wd: "ToNumber h weekday = Inr (num w)" "0 \<le> w" "w \<le> 6"
    and ra: "a + 6 * msPerDay \<le> maxTime" and rn: "n + i * 7 * msPerDay \<le> maxTime"
  shows "\<exists>r. nextWeeklyOccurrence utc h (IsDate (Date a)) interval weekday (Date n)
     = Some (Inr (IsDate (Date r)))"
proof -
  define k where "k = (w - WeekDay a) mod 7"
  define b where "b = a + k * msPerDay"
  define W where "W = (Day n - Day b) div 7"
  define q where "q = W div i"
  define c where "c = b + q * i * 7 * msPerDay"
  have k: "0 \<le> k" "k \<le> 6" unfolding k_def by simp_all
  have ab: "a \<le> b" "b \<le> a + 6 * msPerDay" unfolding b_def using k by (simp_all add: msPerDay_def)
  have vb: "validTime b" using a ab ra by (simp add: validTime_def)
  have base: "weeklyBase utc (Date a) (num w) = Date b"
    unfolding weeklyBase_num [OF a wd(2,3)] k_def [symmetric] b_def [symmetric]
    using vb by (simp add: dateOfTime_num)
  note cf = weekly_closed_form(1) [OF a n iv wd, unfolded base]
  show ?thesis
  proof (cases "n < b")
    case True
    then show ?thesis unfolding cf by simp
  next
    case False
    then have le: "b \<le> n" by simp
    have "0 \<le> Day n - Day b" using Day_mono [OF le] by simp
    then have W: "0 \<le> W" unfolding W_def by simp
    then have q: "0 \<le> q" unfolding q_def using iv(2) by (simp add: pos_imp_zdiv_nonneg_iff)
    have qi: "0 \<le> q * i" using q iv(2) by simp
    have qW: "q * i \<le> W"
    proof -
      have "i * q + W mod i = W" unfolding q_def by (rule mult_div_mod_eq)
      moreover have "0 \<le> W mod i" using iv(2) by simp
      ultimately show ?thesis by (simp add: mult.commute)
    qed
    have "7 * W \<le> Day n - Day b"
    proof -
      have "7 * W + (Day n - Day b) mod 7 = Day n - Day b"
        unfolding W_def by (rule mult_div_mod_eq)
      moreover have "0 \<le> (Day n - Day b) mod 7" by simp
      ultimately show ?thesis by simp
    qed
    then have "Day b + 7 * (q * i) \<le> Day n" using qW by simp
    moreover have "Day c = Day b + 7 * (q * i)"
    proof -
      have "q * i * 7 * msPerDay = 7 * (q * i) * msPerDay" by simp
      then show ?thesis unfolding c_def by (simp only: Day_add_days)
    qed
    ultimately have dc: "Day c \<le> Day n" by simp
    have "c = Day c * msPerDay + TimeWithinDay c" using Day_TimeWithinDay [of c] by simp
    moreover have "TimeWithinDay c < msPerDay" by (rule TimeWithinDay_range)
    moreover have "Day c * msPerDay \<le> Day n * msPerDay" using dc by (simp add: msPerDay_def)
    moreover have "Day n * msPerDay \<le> n"
      using Day_TimeWithinDay [of n] TimeWithinDay_range(1) [of n] by simp
    ultimately have "c < n + msPerDay" by simp
    moreover have "msPerDay \<le> i * 7 * msPerDay" using iv(2) by (simp add: msPerDay_def)
    ultimately have chi: "c \<le> maxTime" using rn by simp
    have bc: "b \<le> c" unfolding c_def using qi by (simp add: msPerDay_def)
    then have vc: "validTime c" using vb chi by (simp add: validTime_def)
    have cand: "weeklyCandidate utc (Date b) (num i) (Date n) = Date c"
      unfolding weeklyCandidate_num [OF vb n iv(2)] W_def [symmetric] q_def [symmetric]
        c_def [symmetric]
      using vc by (simp add: dateOfTime_num)
    show ?thesis
    proof (cases "c \<le> n")
      case True
      define s where "s = i * 7 * msPerDay"
      have "0 \<le> s" unfolding s_def using iv(2) by (simp add: msPerDay_def)
      moreover have "- maxTime \<le> c" "n + s \<le> maxTime"
        using vc rn unfolding s_def by (simp_all add: validTime_def)
      ultimately have "- maxTime \<le> c + s \<and> c + s \<le> maxTime" using True by simp
      then have "validTime (c + i * 7 * msPerDay)"
        unfolding s_def validTime_def by (simp only: abs_le_iff) simp
      then show ?thesis
        unfolding cf cand using False True by (simp add: addWeeks_num dateOfTime_num)
    next
      case nc: False
      then show ?thesis unfolding cf cand using False by simp
    qed
  qed
qed

lemma monthly_monotone:
  assumes n1: "validTime n1" and n2: "validTime n2" and le: "n1 \<le> n2"
    and yr: "100 \<le> YearFromTime n1"
    and wd: "ToNumber h weekday = Inr (num w)" "0 \<le> w" "w \<le> 6"
    and wom: "ToNumber h weekOfMonth = Inr (num wom)" "1 \<le> wom" "wom \<le> 5"
    and r1: "nextMonthlyOccurrence utc h (IsDate (Date a)) weekday weekOfMonth (Date n1)
       = Inr (IsDate (Date r1))"
    and r2: "nextMonthlyOccurrence utc h (IsDate (Date a)) weekday weekOfMonth (Date n2)
       = Inr (IsDate (Date r2))"
  shows "r1 \<le> r2"
proof -
  have k: "monthIndex n1 \<le> monthIndex n2" by (rule monthIndex_mono [OF le])
  have "12 * YearFromTime n1 \<le> monthIndex n1"
    unfolding monthIndex_def using MonthFromTime_range(1) [of n1] by simp
  then have "1200 \<le> monthIndex n2" using yr k by simp
  moreover have "monthIndex n2 \<le> 12 * YearFromTime n2 + 11"
    unfolding monthIndex_def using MonthFromTime_range(2) [of n2] by simp
  ultimately have yr2: "100 \<le> YearFromTime n2" by simp
  have s1: "searchMonths 24 (monthIndex n1) w wom a n1 = Some r1"
    using r1 unfolding nextMonthlyOccurrence_search [OF n1 yr wd wom]
    by (simp split: option.splits)
  have s2: "searchMonths 24 (monthIndex n2) w wom a n2 = Some r2"
    using r2 unfolding nextMonthlyOccurrence_search [OF n2 yr2 wd wom]
    by (simp split: option.splits)
  show ?thesis by (rule searchMonths_monotone [OF le k s1 s2])
qed

lemma monthly_returns_instant:
  assumes "nextMonthlyOccurrence utc h anchor weekday weekOfMonth (Date n) = Inr (IsDate d)"
  shows "\<exists>r. d = Date r"
proof -
  have "monthlyScan utc m cursor wd wom anchor (Date n) = IsDate d \<Longrightarrow> \<exists>r. d = Date r"
    for m cursor wd wom anchor
  proof (induction m arbitrary: cursor)
    case 0
    then show ?case by simp
  next
    case (Suc m)
    then show ?case
      by (cases d) (auto simp: Let_def split: if_splits)
  qed
  then show ?thesis
    using assms unfolding nextMonthlyOccurrence_def Let_def
    by (auto split: dateOrNull.splits sum.splits if_splits)
qed

text \<open>With the anchor at ``now'', the month after that of ``now'' has an acceptable occurrence.\<close>

lemma monthly_anchor_now:
  assumes t: "validTime t" and yr: "100 \<le> YearFromTime t"
    and wd: "ToNumber h weekday = Inr (num w)" "0 \<le> w" "w \<le> 6"
    and wom: "ToNumber h weekOfMonth = Inr (num wom)" "1 \<le> wom" "wom \<le> 5"
    and v: "validTime (monthlyOccurrence (monthIndex t + 1) w wom t)"
  shows "\<exists>r. nextMonthlyOccurrence utc h (IsDate (Date t)) weekday weekOfMonth (Date t)
     = Inr (IsDate (Date r)) \<and> t < r"
proof -
  define k where "k = monthIndex t"
  define occ where "occ = monthlyOccurrence (k + 1) w wom t"
  have "Day t + 1 \<le> firstOfMonth (k + 1)"
    unfolding k_def using monthIndex_bounds(2) [of t] by simp
  then have "Day t + 1 \<le> occurrenceDay (k + 1) w wom"
    using occurrenceDay_lower [OF wom(2), of "k + 1" w] by simp
  then have "(Day t + 1) * msPerDay \<le> occurrenceDay (k + 1) w wom * msPerDay"
    by (simp add: msPerDay_def)
  moreover have "t < (Day t + 1) * msPerDay"
    using Day_TimeWithinDay [of t] TimeWithinDay_range(2) [of t] by (simp add: algebra_simps)
  ultimately have "t < occ"
    unfolding occ_def monthlyOccurrence_def using TimeWithinDay_range(1) [of t] by simp
  then have "acceptable t t (monthlyOccurrence (k + 1) w wom t)"
    using v unfolding acceptable_def occ_def k_def by simp
  then have "searchMonths 24 k w wom t t \<noteq> None"
    unfolding searchMonths_None by (auto intro!: exI [of _ 1])
  then obtain r where r: "searchMonths 24 k w wom t t = Some r" by auto
  then have "acceptable t t r" using searchMonths_Some [OF r] by blast
  then have "t < r" by (simp add: acceptable_def)
  then show ?thesis
    unfolding nextMonthlyOccurrence_search [OF t yr wd wom] k_def [symmetric] r by simp
qed

section \<open>The zone of London\<close>

lemma summerTime_2024:
  assumes "1704067200000 \<le> t" "t < 1735689600000"
  shows "summerTime t \<longleftrightarrow> 1711846800000 \<le> t \<and> t < 1729990800000"
proof -
  have "Day 1704067200000 \<le> Day t" using assms(1) by (rule Day_mono)
  moreover have "Day 1704067200000 = DayFromYear 2024" by code_simp
  ultimately have lo: "DayFromYear 2024 \<le> Day t" by simp
  have "t \<le> 1735689599999" using assms(2) by simp
  then have "Day t \<le> Day 1735689599999" by (rule Day_mono)
  moreover have "Day 1735689599999 < DayFromYear (2024 + 1)" by code_simp
  ultimately have hi: "Day t < DayFromYear (2024 + 1)" by simp
  have y: "YearFromTime t = 2024"
    unfolding YearFromTime_def by (rule YearFromDay_unique [OF lo hi])
  have s: "lastSunday 2024 2 * msPerDay + msPerHour = 1711846800000" by code_simp
  have e: "lastSunday 2024 9 * msPerDay + msPerHour = 1729990800000" by code_simp
  show ?thesis unfolding summerTime_def Let_def y s e ..
qed

text \<open>The offsets of London in 2024, for the evaluation of the worked examples.\<close>

lemma london_2024 [code]:
  "london t isUTC =
     (let u = (if isUTC then t else t - 3600000)
      in if 1704067200000 \<le> u \<and> u < 1735689600000
         then (if 1711846800000 \<le> u \<and> u < 1729990800000 then 3600000 else 0)
         else (if summerTime u then 3600000 else 0))"
proof -
  define u where "u = (if isUTC then t else t - 3600000)"
  have "london t isUTC = (if summerTime u then 3600000 else 0)"
    unfolding u_def by (simp add: london_def msPerHour_def)
  also have "\<dots> = (if 1704067200000 \<le> u \<and> u < 1735689600000
         then (if 1711846800000 \<le> u \<and> u < 1729990800000 then 3600000 else 0)
         else (if summerTime u then 3600000 else 0))"
    using summerTime_2024 [of u] by auto
  finally show ?thesis unfolding u_def Let_def .
qed

section \<open>Validation of the descriptor\<close>

lemma finiteWithin_guard:
  "finiteWithin (of_int lo) (of_int hi) n
     \<longleftrightarrow> \<not> (\<not> isFinite n \<or> jlt n (num lo) \<or> jgt n (num hi))"
  by (cases n) (auto simp: finiteWithin_def jgt_def num_def)

lemma finiteAtLeast_guard:
  "finiteAtLeast (of_int lo) n \<longleftrightarrow> \<not> (\<not> isFinite n \<or> jlt n (num lo))"
  by (cases n) (auto simp: finiteAtLeast_def num_def)

lemma ToNumber_primitive: "\<not> isObject v \<Longrightarrow> \<exists>n. ToNumber h v = Inr n"
  by (cases v) simp_all

lemma nullish_primitive: "\<not> isObject v \<Longrightarrow> \<not> isObject (nullish v (JNum n))"
  by (cases v) simp_all

lemma ToNumber_object:
  "ToNumber h (JObj ps) = Inl e \<longleftrightarrow> hasOwnProperty ps ''toString''"
  by (cases e) simp

text \<open>
  Claim C2, as the code has it.  When the conversions \<open>Number(interval ?? 1)\<close>,
  \<open>Number(weekday)\<close> and \<open>Number(weekOfMonth)\<close> give numbers, a descriptor is unresolvable
  when the weekday is not a finite number from 0 to 6, when the week of the month is not a
  finite number from 1 to 5, or when the interval is not a finite number that is at least
  1: the resolver concerned then returns \<open>null\<close>, in every zone.  The test is on finiteness
  and range only, not on being an integer.  Fields that are not objects or arrays always
  convert, so that no resolver throws on them.  A conversion that throws (that of an
  object with an own property \<open>toString\<close>, for one) makes the resolver throw, unless the
  anchor is missing.
\<close>

theorem invalid_descriptor_returns_null:
  "(ToNumber h (nullish interval (JNum (num 1))) = Inr iv \<and> ToNumber h weekday = Inr wd
      \<and> (\<not> finiteAtLeast 1 iv \<or> \<not> finiteWithin 0 6 wd)
      \<longrightarrow> nextWeeklyOccurrence z h anchorStart interval weekday now = Some (Inr IsNull))
   \<and> (ToNumber h weekday = Inr wd \<and> ToNumber h weekOfMonth = Inr wom
      \<and> (\<not> finiteWithin 0 6 wd \<or> \<not> finiteWithin 1 5 wom)
      \<longrightarrow> nextMonthlyOccurrence z h anchorStart weekday weekOfMonth now = Inr IsNull)
   \<and> (\<not> isObject interval \<and> \<not> isObject weekday
      \<longrightarrow> nextWeeklyOccurrence z h anchorStart interval weekday now \<noteq> Some (Inl e))
   \<and> (\<not> isObject weekday \<and> \<not> isObject weekOfMonth
      \<longrightarrow> nextMonthlyOccurrence z h anchorStart weekday weekOfMonth now \<noteq> Inl e)
   \<and> (ToNumber h (nullish interval (JNum (num 1))) = Inl e
        \<or> ToNumber h (nullish interval (JNum (num 1))) = Inr iv \<and> ToNumber h weekday = Inl e
      \<longrightarrow> nextWeeklyOccurrence z h (IsDate anchor) interval weekday now = Some (Inl e))
   \<and> (ToNumber h weekday = Inl e
        \<or> ToNumber h weekday = Inr wd \<and> ToNumber h weekOfMonth = Inl e
      \<longrightarrow> nextMonthlyOccurrence z h (IsDate anchor) weekday weekOfMonth now = Inl e)
   \<and> (ToNumber h (JObj ps) = Inl e \<longleftrightarrow> hasOwnProperty ps ''toString'')"
proof -
  have w: "finiteWithin 0 6 n \<longleftrightarrow> \<not> (\<not> isFinite n \<or> jlt n (num 0) \<or> jgt n (num 6))" for n
    using finiteWithin_guard [of 0 6 n] by simp
  have m: "finiteWithin 1 5 n \<longleftrightarrow> \<not> (\<not> isFinite n \<or> jlt n (num 1) \<or> jgt n (num 5))" for n
    using finiteWithin_guard [of 1 5 n] by simp
  have i: "finiteAtLeast 1 n \<longleftrightarrow> \<not> (\<not> isFinite n \<or> jlt n (num 1))" for n
    using finiteAtLeast_guard [of 1 n] by simp
  have c1: "ToNumber h (nullish interval (JNum (num 1))) = Inr iv \<and> ToNumber h weekday = Inr wd
      \<and> (\<not> finiteAtLeast 1 iv \<or> \<not> finiteWithin 0 6 wd)
      \<longrightarrow> nextWeeklyOccurrence z h anchorStart interval weekday now = Some (Inr IsNull)"
    unfolding w i nextWeeklyOccurrence_def
    by (auto simp: Let_def split: dateOrNull.splits)
  have c2: "ToNumber h weekday = Inr wd \<and> ToNumber h weekOfMonth = Inr wom
      \<and> (\<not> finiteWithin 0 6 wd \<or> \<not> finiteWithin 1 5 wom)
      \<longrightarrow> nextMonthlyOccurrence z h anchorStart weekday weekOfMonth now = Inr IsNull"
    unfolding w m nextMonthlyOccurrence_def
    by (auto simp: Let_def split: dateOrNull.splits)
  have c3: "\<not> isObject interval \<and> \<not> isObject weekday
      \<longrightarrow> nextWeeklyOccurrence z h anchorStart interval weekday now \<noteq> Some (Inl e)"
  proof
    assume p: "\<not> isObject interval \<and> \<not> isObject weekday"
    then obtain a b where "ToNumber h (nullish interval (JNum (num 1))) = Inr a"
        "ToNumber h weekday = Inr b"
      using ToNumber_primitive [OF nullish_primitive, of interval h "num 1"]
        ToNumber_primitive [of weekday h] by blast
    then show "nextWeeklyOccurrence z h anchorStart interval weekday now \<noteq> Some (Inl e)"
      unfolding nextWeeklyOccurrence_def
      by (auto simp: Let_def split: dateOrNull.splits)
  qed
  have c4: "\<not> isObject weekday \<and> \<not> isObject weekOfMonth
      \<longrightarrow> nextMonthlyOccurrence z h anchorStart weekday weekOfMonth now \<noteq> Inl e"
  proof
    assume p: "\<not> isObject weekday \<and> \<not> isObject weekOfMonth"
    then obtain a b where "ToNumber h weekday = Inr a" "ToNumber h weekOfMonth = Inr b"
      using ToNumber_primitive [of weekday h] ToNumber_primitive [of weekOfMonth h] by blast
    then show "nextMonthlyOccurrence z h anchorStart weekday weekOfMonth now \<noteq> Inl e"
      unfolding nextMonthlyOccurrence_def
      by (auto simp: Let_def split: dateOrNull.splits)
  qed
  have c5: "ToNumber h (nullish interval (JNum (num 1))) = Inl e
        \<or> ToNumber h (nullish interval (JNum (num 1))) = Inr iv \<and> ToNumber h weekday = Inl e
      \<longrightarrow> nextWeeklyOccurrence z h (IsDate anchor) interval weekday now = Some (Inl e)"
    unfolding nextWeeklyOccurrence_def by auto
  have c6: "ToNumber h weekday = Inl e
        \<or> ToNumber h weekday = Inr wd \<and> ToNumber h weekOfMonth = Inl e
      \<longrightarrow> nextMonthlyOccurrence z h (IsDate anchor) weekday weekOfMonth now = Inl e"
    unfolding nextMonthlyOccurrence_def by auto
  show ?thesis using c1 c2 c3 c4 c5 c6 ToNumber_object by blast
qed

theorem invalid_descriptor_returns_null_witness:
  "nextWeeklyOccurrence london exampleHost (IsDate (Date 1704099600000)) (JNum (Fin (1 / 2)))
     (JNum (num 7)) (Date 1704099600000) = Some (Inr IsNull)
   \<and> nextMonthlyOccurrence london exampleHost (IsDate (Date 1704099600000)) (JNum (num 7))
     (JNum (num 6)) (Date 1704099600000) = Inr IsNull
   \<and> nextWeeklyOccurrence london exampleHost (IsDate (Date 1704099600000)) (JNum (num 1))
     (JStr ''Monday'') (Date 1704099600000) \<noteq> Some (Inl TypeError)
   \<and> nextMonthlyOccurrence london exampleHost (IsDate (Date 1704099600000))
     (JObj [(''toString'', JNull)]) (JNum (num 1)) (Date 1704099600000) = Inl TypeError"
  using invalid_descriptor_returns_null [of exampleHost "JNum (Fin (1 / 2))" "Fin (1 / 2)"
      "JNum (num 7)" "num 7" london "IsDate (Date 1704099600000)" "Date 1704099600000"
      "JNum (num 6)" "num 6" TypeError "Date 1704099600000" "[(''toString'', JNull)]"]
    invalid_descriptor_returns_null [of exampleHost "JNum (num 1)" "num 1"
      "JStr ''Monday''" NaN london "IsDate (Date 1704099600000)" "Date 1704099600000"
      "JNum (num 6)" "num 6" TypeError "Date 1704099600000" "[]"]
    invalid_descriptor_returns_null [of exampleHost "JNum (num 1)" "num 1"
      "JObj [(''toString'', JNull)]" NaN london "IsDate (Date 1704099600000)" "Date 1704099600000"
      "JNum (num 1)" "num 1" TypeError "Date 1704099600000" "[(''toString'', JNull)]"]
  by (simp add: finiteWithin_def finiteAtLeast_def num_def hasOwnProperty_def exampleHost_def)

text \<open>
  Claim C2 as stated fails: weekday 2.5 and interval 1.5 are not integers, yet the weekly
  resolver computes an occurrence from them.  With the anchor and ``now'' both at Monday
  2024-01-01 09:00 (in a host that keeps UTC) it returns Tuesday 2024-01-02 09:00.  And a
  weekday that is an object with an own property \<open>toString\<close> makes the resolver throw a
  TypeError instead of returning \<open>null\<close>.
\<close>

theorem non_integer_descriptor_resolves:
  "nextWeeklyOccurrence utc exampleHost (IsDate (Date 1704099600000)) (JNum (Fin (3 / 2)))
     (JNum (Fin (5 / 2))) (Date 1704099600000) = Some (Inr (IsDate (Date 1704186000000)))
   \<and> nextWeeklyOccurrence utc exampleHost (IsDate (Date 1704099600000)) (JNum (num 1))
     (JObj [(''toString'', JNum (num 1))]) (Date 1704099600000) = Some (Inl TypeError)"
  by code_simp

section \<open>Properties of a resolved occurrence\<close>




section \<open>The weekly resolver on valid descriptors\<close>







section \<open>The anchor at ``now''\<close>




section \<open>The fifth week of a month\<close>

lemma searchMonths_first:
  assumes "0 \<le> j" and "j < int m"
    and "acceptable a n (monthlyOccurrence (k + j) w wom a)"
    and "\<forall>j'. 0 \<le> j' \<and> j' < j \<longrightarrow> \<not> acceptable a n (monthlyOccurrence (k + j') w wom a)"
  shows "searchMonths m k w wom a n = Some (monthlyOccurrence (k + j) w wom a)"
proof -
  have "searchMonths m k w wom a n \<noteq> None"
    using assms(1-3) unfolding searchMonths_None by blast
  then obtain t where t: "searchMonths m k w wom a n = Some t" by blast
  from searchMonths_Some [OF t] obtain j0
    where j0: "0 \<le> j0" "j0 < int m" "t = monthlyOccurrence (k + j0) w wom a" "acceptable a n t"
      "\<forall>j'. 0 \<le> j' \<and> j' < j0 \<longrightarrow> \<not> acceptable a n (monthlyOccurrence (k + j') w wom a)"
    by blast
  have "\<not> j0 < j" using assms(4) j0(1,3,4) by blast
  moreover have "\<not> j < j0" using j0(5) assms(1,3) by blast
  ultimately have "j0 = j" by simp
  then show ?thesis using t j0(3) by simp
qed



section \<open>When a resolver returns no instant\<close>




section \<open>The horizon of the monthly search\<close>



section \<open>Monotonicity in ``now''\<close>




section \<open>The dispatcher\<close>

lemma getPropOptional_cadence: "getPropOptional ev ''cadence'' = Inr (cadenceOf ev)"
  unfolding cadenceOf_def by (cases ev) simp_all

lemma getProp_object: "getProp (JObj ps) k = Inr (field (JObj ps) k)"
  by (simp add: field_def)

lemma getProp_array: "getProp (JArr xs) k = Inr JUndefined"
  by simp

lemma field_array [simp]: "field (JArr xs) k = JUndefined"
  by (simp add: field_def)

lemma cadence_of_non_object:
  assumes "ToBoolean (cadenceOf ev)"
  shows "\<exists>ps. ev = JObj ps"
  using assms by (cases ev) (simp_all add: cadenceOf_def)

lemma isObject_iff: "isObject v \<longleftrightarrow> ToBoolean v \<and> typeofObject v"
  by (cases v) simp_all

lemma dateOfTime_valid: "dateOfTime x = Date t \<Longrightarrow> validTime t"
proof (cases x)
  case (Fin r)
  assume d: "dateOfTime x = Date t"
  have "\<bar>rat_of_int (toInteger r)\<bar> \<le> \<bar>r\<bar>"
  proof (cases "0 \<le> r")
    case True
    then have "0 \<le> \<lfloor>r\<rfloor>" by simp
    moreover have "rat_of_int \<lfloor>r\<rfloor> \<le> r" by (rule of_int_floor_le)
    ultimately show ?thesis using True by (simp add: toInteger_def)
  next
    case False
    then have "\<lceil>r\<rceil> \<le> 0" by (simp add: ceiling_le_iff)
    then have "rat_of_int \<lceil>r\<rceil> \<le> 0" by simp
    moreover have "r \<le> rat_of_int \<lceil>r\<rceil>" by (rule le_of_int_ceiling)
    ultimately show ?thesis using False by (simp add: toInteger_def)
  qed
  moreover have "\<not> of_int maxTime < \<bar>r\<bar> \<and> t = toInteger r"
    using d unfolding Fin by (auto simp: dateOfTime_def TimeClip_def num_def split: if_splits)
  ultimately have "\<bar>rat_of_int t\<bar> \<le> rat_of_int maxTime" by simp
  then show "validTime t" unfolding validTime_def by (metis of_int_abs of_int_le_iff)
qed (simp_all add: dateOfTime_def TimeClip_def)

lemma newDateOfValue_valid: "newDateOfValue h v = Inr (Date t) \<Longrightarrow> validTime t"
  using dateOfTime_valid by (cases v) (auto split: sum.splits if_splits)

lemma newDateOfValue_primitive: "\<not> isObject v \<Longrightarrow> \<exists>d. newDateOfValue h v = Inr d"
  by (cases v) simp_all

lemma newDateOfValue_object:
  "newDateOfValue h (JObj ps) = Inl e \<longleftrightarrow> hasOwnProperty ps ''toString''"
  by (cases e) simp

lemma parseDate_cases:
  "parseDate h v = (if ToBoolean v then
       (case newDateOfValue h v of
          Inl e \<Rightarrow> Inl e
        | Inr (Date t) \<Rightarrow> Inr (IsDate (Date t))
        | Inr InvalidDate \<Rightarrow> Inr IsNull)
     else Inr IsNull)"
  by (auto simp: parseDate_def isValidDate_def split: sum.splits date.splits)

text \<open>
  Claim C8, as the code has it, in every zone.  The dispatcher returns \<open>null\<close> when
  \<open>ev?.cadence\<close> is not an object or an array, when \<open>ev.dateStart\<close> is falsy (absent, \<open>null\<close>,
  \<open>false\<close>, 0, NaN or the empty string), when \<open>new Date(ev.dateStart)\<close> is an Invalid Date,
  and, the anchor being a valid Date, when \<open>cadence.type\<close> is neither \<open>"weekly"\<close> nor
  \<open>"monthly"\<close>.  With a cadence that is an object and an anchor that is a valid Date it
  gives what the resolver named by \<open>cadence.type\<close> gives on the parsed anchor and the
  fields of the cadence, be it a value or a TypeError.  With a cadence that is an object
  or an array and a truthy \<open>ev.dateStart\<close> whose conversion throws, it throws: such is an
  object with an own property \<open>toString\<close>; a \<open>dateStart\<close> that is not an object or an
  array never throws.
\<close>

theorem dispatcher_soft_failure_and_routing:
  "(\<not> isObject (cadenceOf ev) \<longrightarrow> nextOccurrenceForEvent z h ev now = Some (Inr IsNull))
   \<and> (\<not> ToBoolean (field ev ''dateStart'')
        \<or> newDateOfValue h (field ev ''dateStart'') = Inr InvalidDate
        \<longrightarrow> nextOccurrenceForEvent z h ev now = Some (Inr IsNull))
   \<and> (isObject (cadenceOf ev) \<and> ToBoolean (field ev ''dateStart'')
        \<and> newDateOfValue h (field ev ''dateStart'') = Inl e
        \<longrightarrow> nextOccurrenceForEvent z h ev now = Some (Inl e))
   \<and> (isObject (cadenceOf ev) \<and> ToBoolean (field ev ''dateStart'')
        \<and> newDateOfValue h (field ev ''dateStart'') = Inr (Date t)
        \<longrightarrow> validTime t
          \<and> (field (cadenceOf ev) ''type'' = JStr ''weekly'' \<longrightarrow>
                nextOccurrenceForEvent z h ev now =
                  nextWeeklyOccurrence z h (IsDate (Date t))
                    (field (cadenceOf ev) ''interval'') (field (cadenceOf ev) ''weekday'') now)
          \<and> (field (cadenceOf ev) ''type'' = JStr ''monthly'' \<longrightarrow>
                nextOccurrenceForEvent z h ev now =
                  Some (nextMonthlyOccurrence z h (IsDate (Date t))
                    (field (cadenceOf ev) ''weekday'') (field (cadenceOf ev) ''weekOfMonth'')
                    now))
          \<and> (field (cadenceOf ev) ''type'' \<noteq> JStr ''weekly''
               \<and> field (cadenceOf ev) ''type'' \<noteq> JStr ''monthly''
               \<longrightarrow> nextOccurrenceForEvent z h ev now = Some (Inr IsNull)))
   \<and> (newDateOfValue h (JObj ps) = Inl e \<longleftrightarrow> hasOwnProperty ps ''toString'')
   \<and> (\<not> isObject v \<longrightarrow> newDateOfValue h v \<noteq> Inl e)"
proof -
  have c: "getPropOptional ev ''cadence'' = Inr (cadenceOf ev)"
    by (rule getPropOptional_cadence)
  have main: "(\<not> isObject (cadenceOf ev) \<longrightarrow> nextOccurrenceForEvent z h ev now = Some (Inr IsNull))
   \<and> (\<not> ToBoolean (field ev ''dateStart'')
        \<or> newDateOfValue h (field ev ''dateStart'') = Inr InvalidDate
        \<longrightarrow> nextOccurrenceForEvent z h ev now = Some (Inr IsNull))
   \<and> (isObject (cadenceOf ev) \<and> ToBoolean (field ev ''dateStart'')
        \<and> newDateOfValue h (field ev ''dateStart'') = Inl e
        \<longrightarrow> nextOccurrenceForEvent z h ev now = Some (Inl e))
   \<and> (isObject (cadenceOf ev) \<and> ToBoolean (field ev ''dateStart'')
        \<and> newDateOfValue h (field ev ''dateStart'') = Inr (Date t)
        \<longrightarrow> validTime t
          \<and> (field (cadenceOf ev) ''type'' = JStr ''weekly'' \<longrightarrow>
                nextOccurrenceForEvent z h ev now =
                  nextWeeklyOccurrence z h (IsDate (Date t))
                    (field (cadenceOf ev) ''interval'') (field (cadenceOf ev) ''weekday'') now)
          \<and> (field (cadenceOf ev) ''type'' = JStr ''monthly'' \<longrightarrow>
                nextOccurrenceForEvent z h ev now =
                  Some (nextMonthlyOccurrence z h (IsDate (Date t))
                    (field (cadenceOf ev) ''weekday'') (field (cadenceOf ev) ''weekOfMonth'')
                    now))
          \<and> (field (cadenceOf ev) ''type'' \<noteq> JStr ''weekly''
               \<and> field (cadenceOf ev) ''type'' \<noteq> JStr ''monthly''
               \<longrightarrow> nextOccurrenceForEvent z h ev now = Some (Inr IsNull)))"
  proof (cases "isObject (cadenceOf ev)")
    case False
    then have "\<not> ToBoolean (cadenceOf ev) \<or> \<not> typeofObject (cadenceOf ev)"
      by (simp add: isObject_iff)
    then have "nextOccurrenceForEvent z h ev now = Some (Inr IsNull)"
      unfolding nextOccurrenceForEvent_def c by auto
    then show ?thesis using False by simp
  next
    case True
    then have tb: "ToBoolean (cadenceOf ev)" "typeofObject (cadenceOf ev)"
      by (simp_all add: isObject_iff)
    then obtain ps where ps: "ev = JObj ps" using cadence_of_non_object by blast
    have d: "getProp ev ''dateStart'' = Inr (field ev ''dateStart'')"
      unfolding ps by (rule getProp_object)
    define cad where "cad = cadenceOf ev"
    define ty where "ty = field cad ''type''"
    have gp: "getProp cad k = Inr (field cad k)" for k
      using True unfolding cad_def [symmetric] by (cases cad) (simp_all add: field_def)
    have unfold: "nextOccurrenceForEvent z h ev now =
       (case parseDate h (field ev ''dateStart'') of
          Inl e \<Rightarrow> Some (Inl e)
        | Inr anchorStart \<Rightarrow>
            if anchorStart = IsNull then Some (Inr IsNull)
            else if ty = JStr ''weekly''
            then nextWeeklyOccurrence z h anchorStart (field cad ''interval'')
                   (field cad ''weekday'') now
            else if ty = JStr ''monthly''
            then Some (nextMonthlyOccurrence z h anchorStart (field cad ''weekday'')
                   (field cad ''weekOfMonth'') now)
            else Some (Inr IsNull))"
      unfolding nextOccurrenceForEvent_def c d cad_def [symmetric] ty_def
      using tb unfolding cad_def [symmetric]
      by (simp add: gp Let_def split: sum.splits)
    show ?thesis
      using True newDateOfValue_valid [of h "field ev ''dateStart''" t]
      unfolding unfold parseDate_cases cad_def [symmetric] ty_def [symmetric]
      by (auto split: sum.splits date.splits)
  qed
  show ?thesis
    using main newDateOfValue_object [of h ps e] newDateOfValue_primitive [of v h] by auto
qed

theorem dispatcher_soft_failure_and_routing_witness:
  "nextOccurrenceForEvent london exampleHost
      (JObj [(''dateStart'', JStr ''2024-01-01T09:00:00Z'')])
      (Date 1704099600000) = Some (Inr IsNull)
   \<and> nextOccurrenceForEvent london exampleHost
        (JObj [(''cadence'', JObj [(''type'', JStr ''weekly''), (''weekday'', JNum (num 1))])])
        (Date 1704099600000) = Some (Inr IsNull)
   \<and> nextOccurrenceForEvent london exampleHost
        (JObj [(''cadence'', JObj [(''type'', JStr ''yearly'')]),
               (''dateStart'', JStr ''2024-01-01T09:00:00Z'')])
        (Date 1704099600000) = Some (Inr IsNull)
   \<and> nextOccurrenceForEvent london exampleHost
        (JObj [(''cadence'', JObj [(''type'', JStr ''weekly''), (''weekday'', JNum (num 1))]),
               (''dateStart'', JStr ''2024-01-01T09:00:00Z'')])
        (Date 1704099600000)
      = nextWeeklyOccurrence london exampleHost (IsDate (Date 1704099600000))
          JUndefined (JNum (num 1)) (Date 1704099600000)
   \<and> nextOccurrenceForEvent london exampleHost
        (JObj [(''cadence'', JArr []), (''dateStart'', JObj [(''toString'', JNull)])])
        (Date 1704099600000) = Some (Inl TypeError)"
proof -
  note d = dispatcher_soft_failure_and_routing [where h = exampleHost and z = london
      and now = "Date 1704099600000"]
  have p: "DateParse exampleHost ''2024-01-01T09:00:00Z'' = num 1704099600000"
    by (simp add: exampleHost_def)
  have v: "validTime 1704099600000" by (simp add: validTime_def maxTime_def)
  show ?thesis
    using d [where ev = "JObj [(''dateStart'', JStr ''2024-01-01T09:00:00Z'')]"]
      d [where ev = "JObj [(''cadence'',
            JObj [(''type'', JStr ''weekly''), (''weekday'', JNum (num 1))])]"]
      d [where ev = "JObj [(''cadence'', JObj [(''type'', JStr ''yearly'')]),
               (''dateStart'', JStr ''2024-01-01T09:00:00Z'')]" and t = 1704099600000]
      d [where ev = "JObj [(''cadence'',
            JObj [(''type'', JStr ''weekly''), (''weekday'', JNum (num 1))]),
               (''dateStart'', JStr ''2024-01-01T09:00:00Z'')]" and t = 1704099600000]
      d [where ev = "JObj [(''cadence'', JArr []), (''dateStart'', JObj [(''toString'', JNull)])]"
        and e = TypeError]
    by (simp add: cadenceOf_def field_def p v dateOfTime_num hasOwnProperty_def)
qed

text \<open>
  Claim C8 as stated fails in two ways.  An anchor start value that is present and
  parseable but falsy is rejected: \<open>dateStart = 0\<close> denotes 1970-01-01T00:00Z, a Thursday,
  yet \<open>parseDate\<close> rejects it and the dispatcher returns \<open>null\<close> where the weekly resolver
  on that anchor returns Thursday 2024-01-04 00:00.  And the dispatcher can throw: for a
  \<open>dateStart\<close> that is an object with an own property \<open>toString\<close>, \<open>new Date(dateStart)\<close>
  throws a TypeError, which nothing catches.
\<close>

theorem dispatcher_rejects_epoch_anchor:
  "nextOccurrenceForEvent utc exampleHost
     (JObj [(''cadence'', JObj [(''type'', JStr ''weekly''), (''interval'', JNum (num 1)),
                                (''weekday'', JNum (num 4))]),
            (''dateStart'', JNum (num 0))])
     (Date 1704099600000) = Some (Inr IsNull)
   \<and> newDateOfValue exampleHost (JNum (num 0)) = Inr (Date 0)
   \<and> nextWeeklyOccurrence utc exampleHost (IsDate (Date 0)) (JNum (num 1)) (JNum (num 4))
        (Date 1704099600000) = Some (Inr (IsDate (Date 1704326400000)))
   \<and> nextOccurrenceForEvent utc exampleHost
     (JObj [(''cadence'', JObj [(''type'', JStr ''weekly''), (''interval'', JNum (num 1)),
                                (''weekday'', JNum (num 4))]),
            (''dateStart'', JObj [(''toString'', JNum (num 1))])])
     (Date 1704099600000) = Some (Inl TypeError)"
  by code_simp

end
